theory Spec2Isabelle
  imports Complex_Main "HOL-Library.Product_Lexorder" "HOL-Library.List_Lexorder"
    "HOL-Library.Char_ord"
begin

section \<open>Errors\<close>

text \<open>
  The exceptions that the modelled methods of \<^verbatim>\<open>alex/components/asr/utterance.py\<close> can
  raise.  A method that can raise returns \<open>py_error + 'a\<close>, with \<open>Inl\<close> for the exception.
\<close>

datatype py_error =
    AssertionError
  | IndexError
  | ValueError
  | NotImplementedError
  | ZeroDivisionError
  | TypeError
  | NameError
  | RuntimeError
  | UtteranceConfusionNetworkException

section \<open>Utterance\<close>

text \<open>
  \<^verbatim>\<open>Utterance.__init__\<close> stores \<^verbatim>\<open>surface.split()\<close> in \<^verbatim>\<open>_utterance\<close> and its set of words
  in \<^verbatim>\<open>_wordset\<close>.  \<^verbatim>\<open>split()\<close> without arguments cuts a byte string at runs of the six
  ASCII whitespace characters and drops empty pieces.
\<close>

record Utterance =
  utterance :: "string list"
  wordset :: "string set"

definition is_space :: "char \<Rightarrow> bool" where
  "is_space c = (c \<in> set [CHR '' '', CHR 0x09, CHR 0x0A, CHR 0x0B, CHR 0x0C, CHR 0x0D])"

fun split_from :: "string \<Rightarrow> string \<Rightarrow> string list" where
  "split_from w [] = (if w = [] then [] else [w])"
| "split_from w (c # cs) =
     (if is_space c then (if w = [] then split_from [] cs else w # split_from [] cs)
      else split_from (w @ [c]) cs)"

definition str_split :: "string \<Rightarrow> string list" where
  "str_split surface = split_from [] surface"

definition Utterance_init :: "string \<Rightarrow> Utterance" where
  "Utterance_init surface =
     \<lparr>utterance = str_split surface, wordset = set (str_split surface)\<rparr>"

text \<open>The \<^verbatim>\<open>utterance\<close> setter re-derives the word set.\<close>

definition set_utterance :: "Utterance \<Rightarrow> string list \<Rightarrow> Utterance" where
  "set_utterance u utt = u\<lparr>utterance := utt, wordset := set utt\<rparr>"

definition Utterance_isempty :: "Utterance \<Rightarrow> bool" where
  "Utterance_isempty u = (length (utterance u) = 0)"

subsection \<open>find and index\<close>

text \<open>
  The maximal skip: the position of the first repetition of the initial word inside
  the phrase (the \<^verbatim>\<open>for ... else\<close> over \<^verbatim>\<open>enumerate(phrase[1:], start=1)\<close>), or the length
  of the phrase when the initial word does not recur.
\<close>

fun max_skip_from :: "string \<Rightarrow> nat \<Rightarrow> string list \<Rightarrow> nat \<Rightarrow> nat" where
  "max_skip_from initial word_count [] dflt = dflt"
| "max_skip_from initial word_count (w # ws) dflt =
     (if w = initial then word_count else max_skip_from initial (Suc word_count) ws dflt)"

definition max_skip :: "string list \<Rightarrow> nat" where
  "max_skip phrase = max_skip_from (hd phrase) 1 (tl phrase) (length phrase)"

text \<open>
  The inner \<^verbatim>\<open>for phrase_idx in xrange(1, len(phrase))\<close>: \<open>Inr None\<close> when the loop runs
  to its \<^verbatim>\<open>else\<close> (every word matched), \<open>Inr (Some phrase_idx)\<close> when it breaks at
  \<open>phrase_idx\<close>, and \<open>IndexError\<close> when a read is out of range.
\<close>

fun check_subsequent ::
  "string list \<Rightarrow> string list \<Rightarrow> nat \<Rightarrow> nat list \<Rightarrow> py_error + nat option" where
  "check_subsequent utt phrase match_idx [] = Inr None"
| "check_subsequent utt phrase match_idx (phrase_idx # rest) =
     (if length utt \<le> match_idx + phrase_idx \<or> length phrase \<le> phrase_idx then Inl IndexError
      else if utt ! (match_idx + phrase_idx) \<noteq> phrase ! phrase_idx then Inr (Some phrase_idx)
      else check_subsequent utt phrase match_idx rest)"

lemma check_subsequent_break:
  "check_subsequent utt phrase match_idx ks = Inr (Some phrase_idx) \<Longrightarrow> phrase_idx \<in> set ks"
  by (induction ks) (auto split: if_splits)

lemma max_skip_from_ge:
  "min word_count dflt \<le> max_skip_from initial word_count ws dflt"
proof (induction ws arbitrary: word_count)
  case Nil
  show ?case by simp
next
  case (Cons w ws)
  have "min word_count dflt \<le> min (Suc word_count) dflt"
    by simp
  with Cons [of "Suc word_count"]
  have "min word_count dflt \<le> max_skip_from initial (Suc word_count) ws dflt"
    by (rule order_trans [rotated])
  then show ?case
    by simp
qed

text \<open>
  The \<^verbatim>\<open>while match_idx <= last_idx\<close> loop.  After a partial match that broke at
  \<open>phrase_idx\<close> the start moves by \<open>min max_skip phrase_idx\<close>.
\<close>

function find_loop ::
  "string list \<Rightarrow> string list \<Rightarrow> int \<Rightarrow> nat \<Rightarrow> py_error + int" where
  "find_loop utt phrase last_idx match_idx =
     (if int match_idx \<le> last_idx then
        (if length utt \<le> match_idx then Inl IndexError
         else if utt ! match_idx = hd phrase then
           (case check_subsequent utt phrase match_idx [1..<length phrase] of
              Inl e \<Rightarrow> Inl e
            | Inr None \<Rightarrow> Inr (int match_idx)
            | Inr (Some phrase_idx) \<Rightarrow>
                find_loop utt phrase last_idx (match_idx + min (max_skip phrase) phrase_idx))
         else find_loop utt phrase last_idx (match_idx + 1))
      else Inr (- 1))"
  by pat_completeness auto
termination
proof (relation "measure (\<lambda>(utt, phrase, last_idx, match_idx). nat (last_idx + 1 - int match_idx))",
       goal_cases)
  case 1
  show ?case by simp
next
  case (2 utt phrase last_idx match_idx opt phrase_idx)
  then have "phrase_idx \<in> set [1..<length phrase]"
    using check_subsequent_break by metis
  then have k: "1 \<le> phrase_idx" and len: "1 \<le> length phrase"
    by auto
  from len have "1 \<le> max_skip phrase"
    unfolding max_skip_def
    using max_skip_from_ge [of 1 "length phrase" "hd phrase" "tl phrase"] by simp
  with k have "1 \<le> min (max_skip phrase) phrase_idx"
    by simp
  with 2 show ?case
    by simp
next
  case 3
  then show ?case by simp
qed

declare find_loop.simps [simp del]

definition Utterance_find :: "Utterance \<Rightarrow> string list \<Rightarrow> py_error + int" where
  "Utterance_find u phrase =
     (if \<not> length phrase > 0 then Inl AssertionError
      else if \<not> (\<forall>word \<in> set phrase. word \<in> wordset u) then Inr (- 1)
      else find_loop (utterance u) phrase
             (int (length (utterance u)) - int (length phrase)) 0)"

definition Utterance_index :: "Utterance \<Rightarrow> string list \<Rightarrow> py_error + int" where
  "Utterance_index u phrase =
     (case Utterance_find u phrase of
        Inl e \<Rightarrow> Inl e
      | Inr i \<Rightarrow> if i = - 1 then Inl ValueError else Inr i)"

subsection \<open>n-grams of an utterance\<close>

definition SENTENCE_START :: string where
  "SENTENCE_START = ''<s>''"

definition SENTENCE_END :: string where
  "SENTENCE_END = ''</s>''"

text \<open>
  Python's slice \<^verbatim>\<open>xs[start:stop]\<close>: a missing bound is \<open>None\<close>, a negative bound counts
  from the end, and every bound is clipped to the list.
\<close>

definition slice_bound :: "nat \<Rightarrow> int \<Rightarrow> nat" where
  "slice_bound len i = (if i < 0 then nat (max (int len + i) 0) else min (nat i) len)"

definition py_slice :: "'a list \<Rightarrow> int option \<Rightarrow> int option \<Rightarrow> 'a list" where
  "py_slice xs start stop =
     (let lo = (case start of None \<Rightarrow> 0 | Some i \<Rightarrow> slice_bound (length xs) i);
          hi = (case stop of None \<Rightarrow> length xs | Some j \<Rightarrow> slice_bound (length xs) j)
      in take (hi - lo) (drop lo xs))"

text \<open>\<^verbatim>\<open>xrange(k)\<close> and \<^verbatim>\<open>xrange(a, b)\<close>.\<close>

definition xrange :: "int \<Rightarrow> int \<Rightarrow> int list" where
  "xrange a b = [a..b - 1]"

text \<open>
  \<^verbatim>\<open>Utterance.iter_ngrams\<close>.  The generator is modelled by the list of the windows it
  yields, in order.  \<^verbatim>\<open>with_boundaries * 2\<close> is 2 for \<^verbatim>\<open>True\<close> and 0 for \<^verbatim>\<open>False\<close>.
\<close>

definition Utterance_iter_ngrams :: "Utterance \<Rightarrow> int \<Rightarrow> bool \<Rightarrow> string list list" where
  "Utterance_iter_ngrams u n with_boundaries =
     (let utt = utterance u;
          len = int (length utt);
          min_len = n - (if with_boundaries then 1 else 0) * 2
      in if len \<le> min_len then
           (if len = min_len then
              (if with_boundaries then [[SENTENCE_START] @ utt @ [SENTENCE_END]]
               else [py_slice utt None None])
            else [])
         else
           (if with_boundaries \<and> len > min_len
            then [[SENTENCE_START] @ py_slice utt None (Some (n - 1))] else [])
           @ map (\<lambda>start_idx. py_slice utt (Some start_idx) (Some (start_idx + n)))
               (xrange 0 (len - n + 1))
           @ (if with_boundaries
              then [py_slice utt (Some (- (n - 1))) None @ [SENTENCE_END]] else []))"

subsection \<open>Features of an utterance\<close>

text \<open>
  Modelled from the spec: the base class \<^verbatim>\<open>Features\<close> (\<^verbatim>\<open>alex.ml.features\<close>) is not among
  the sources.  Its \<^verbatim>\<open>features\<close> field is, in the spec's words, a sparse mapping from a
  feature key to an accumulated real-valued weight, where keys that are not present
  implicitly have weight 0 and accumulation is pure addition.  A key is the string
  \<^verbatim>\<open>'__empty__'\<close> or a tuple of words.
\<close>

datatype feature = FStr string | FTuple "string list"

type_synonym feature_map = "feature \<rightharpoonup> real"

definition feat_add :: "feature_map \<Rightarrow> feature \<Rightarrow> real \<Rightarrow> feature_map" where
  "feat_add fs k v = fs(k \<mapsto> (case fs k of None \<Rightarrow> 0 | Some x \<Rightarrow> x) + v)"

record UtteranceFeatures =
  feat_type :: string
  feat_size :: int
  features :: feature_map

text \<open>The loops \<^verbatim>\<open>for ngram in ...: self.features[tuple(ngram)] += 1.\<close>\<close>

definition add_ngrams :: "string list list \<Rightarrow> feature_map \<Rightarrow> feature_map" where
  "add_ngrams ngrams fs = foldl (\<lambda>fs ngram. feat_add fs (FTuple ngram) 1) fs ngrams"

text \<open>
  The loops that also count the skip n-gram \<^verbatim>\<open>(ngram[0], '*1', ngram[2])\<close> or
  \<^verbatim>\<open>(ngram[0], '*2', ngram[3])\<close>; reading past the end of a window raises \<open>IndexError\<close>.
\<close>

fun add_skip_ngrams ::
  "nat \<Rightarrow> string \<Rightarrow> string list list \<Rightarrow> feature_map \<Rightarrow> py_error + feature_map" where
  "add_skip_ngrams k star [] fs = Inr fs"
| "add_skip_ngrams k star (ngram # rest) fs =
     (if length ngram \<le> k then Inl IndexError
      else add_skip_ngrams k star rest
             (feat_add (feat_add fs (FTuple ngram) 1) (FTuple [ngram ! 0, star, ngram ! k]) 1))"

text \<open>
  \<^verbatim>\<open>UtteranceFeatures.parse\<close>.  The final \<^verbatim>\<open>print\<close> for an empty feature vector changes
  neither the object nor the result and is left out.
\<close>

definition UtteranceFeatures_parse ::
  "UtteranceFeatures \<Rightarrow> Utterance \<Rightarrow> bool \<Rightarrow> py_error + UtteranceFeatures" where
  "UtteranceFeatures_parse self u with_boundaries =
     (if Utterance_isempty u then
        Inr (self\<lparr>features := feat_add (features self) (FStr ''__empty__'') 1\<rparr>)
      else if feat_type self = ''ngram'' then
        (let f1 = foldl (\<lambda>fs word. feat_add fs (FTuple [word]) 1) (features self) (utterance u);
             f2 = (if feat_size self \<ge> 2
                   then add_ngrams (Utterance_iter_ngrams u 2 with_boundaries) f1 else f1)
         in case (if feat_size self \<ge> 3
                  then add_skip_ngrams 2 ''*1'' (Utterance_iter_ngrams u 3 with_boundaries) f2
                  else Inr f2) of
              Inl e \<Rightarrow> Inl e
            | Inr f3 \<Rightarrow>
                (case (if feat_size self \<ge> 4
                       then add_skip_ngrams 3 ''*2'' (Utterance_iter_ngrams u 4 with_boundaries) f3
                       else Inr f3) of
                   Inl e \<Rightarrow> Inl e
                 | Inr f4 \<Rightarrow>
                     Inr (self\<lparr>features :=
                            foldl (\<lambda>fs len. add_ngrams (Utterance_iter_ngrams u len with_boundaries) fs)
                              f4 (xrange 5 (feat_size self + 1))\<rparr>)))
      else Inl NotImplementedError)"

section \<open>UtteranceConfusionNetwork\<close>

text \<open>
  A confusion network holds, per word position, the list of alternatives
  \<open>(probability, word)\<close> in \<^verbatim>\<open>_cn\<close> and the list of long links that start there in
  \<^verbatim>\<open>_long_links\<close>.  A long link is the named tuple \<^verbatim>\<open>LongLink(end, orig_probs, hyp)\<close> with
  \<open>hyp = (probability, phrase)\<close>.  Probabilities are Python floats; they are modelled by
  real numbers, so rounding is outside the model.  Word positions, alternative indices
  and link ends are natural numbers.  The operations of the class are prefixed \<open>UCN_\<close>.
\<close>

type_synonym hyp = "real \<times> string"

record LongLink =
  link_end :: nat
  orig_probs :: "real list"
  link_hyp :: "real \<times> string list"

record UtteranceConfusionNetwork =
  abstr_idxs :: "(int \<times> nat) list"
  cn :: "hyp list list"
  cn_wordset :: "string set"
  long_links :: "LongLink list list"

subsection \<open>prune\<close>

text \<open>
  The loop of \<^verbatim>\<open>prune\<close> over the slots, with the list \<^verbatim>\<open>pruned_cn\<close> built so far.
  \<^verbatim>\<open>alts[0]\<close> and \<^verbatim>\<open>pruned_alts[0]\<close> raise \<open>IndexError\<close> on an empty list; an empty word is
  the only word that is false in \<^verbatim>\<open>not alts[0][1]\<close>.
\<close>

fun prune_loop :: "real \<Rightarrow> hyp list list \<Rightarrow> hyp list list \<Rightarrow> py_error + hyp list list" where
  "prune_loop prune_prob pruned_cn [] = Inr pruned_cn"
| "prune_loop prune_prob pruned_cn (alts # rest) =
     (case alts of
        [] \<Rightarrow> Inl IndexError
      | (p0, w0) # _ \<Rightarrow>
          if w0 = [] \<and> p0 > 1.0 - prune_prob then prune_loop prune_prob pruned_cn rest
          else
            (let pruned_alts = filter (\<lambda>(p, w). \<not> p < prune_prob) alts
             in case pruned_alts of
                  [] \<Rightarrow> Inl IndexError
                | (q0, v0) # _ \<Rightarrow>
                    if v0 = [] \<and> length pruned_alts = 1
                    then prune_loop prune_prob pruned_cn rest
                    else prune_loop prune_prob (pruned_cn @ [alts]) rest))"

definition UCN_prune ::
  "UtteranceConfusionNetwork \<Rightarrow> real \<Rightarrow> py_error + UtteranceConfusionNetwork" where
  "UCN_prune self prune_prob =
     (case prune_loop prune_prob [] (cn self) of
        Inl e \<Rightarrow> Inl e
      | Inr pruned_cn \<Rightarrow>
          Inr (self\<lparr>cn := pruned_cn, cn_wordset := set (map snd (concat pruned_cn))\<rparr>))"

subsection \<open>N-best expansion\<close>

text \<open>
  \<^verbatim>\<open>get_prob\<close>: the product, from 1, of the probabilities of the alternatives that the
  index vector selects, over the positions that \<^verbatim>\<open>izip\<close> pairs up.
\<close>

fun get_prob_from :: "real \<Rightarrow> nat list \<Rightarrow> hyp list list \<Rightarrow> py_error + real" where
  "get_prob_from acc (altidx # hyp_index) (alts # rest) =
     (if altidx < length alts then get_prob_from (acc * fst (alts ! altidx)) hyp_index rest
      else Inl IndexError)"
| "get_prob_from acc _ _ = Inr acc"

definition UCN_get_prob :: "UtteranceConfusionNetwork \<Rightarrow> nat list \<Rightarrow> py_error + real" where
  "UCN_get_prob self hyp_index = get_prob_from 1 hyp_index (cn self)"

text \<open>
  \<^verbatim>\<open>get_next_worse_candidates\<close>: for each position \<open>i\<close>, the vector with position \<open>i\<close>
  incremented, unless the incremented index leaves the slot.
\<close>

fun worse_candidates_from :: "hyp list list \<Rightarrow> nat list \<Rightarrow> nat list \<Rightarrow> py_error + nat list list" where
  "worse_candidates_from slots hyp_index [] = Inr []"
| "worse_candidates_from slots hyp_index (i # rest) =
     (let wh = hyp_index[i := hyp_index ! i + 1]
      in if length slots \<le> i then Inl IndexError
         else if wh ! i \<ge> length (slots ! i) then worse_candidates_from slots hyp_index rest
         else (case worse_candidates_from slots hyp_index rest of
                 Inl e \<Rightarrow> Inl e
               | Inr worse_hyp \<Rightarrow> Inr (wh # worse_hyp)))"

definition UCN_get_next_worse_candidates ::
  "UtteranceConfusionNetwork \<Rightarrow> nat list \<Rightarrow> py_error + nat list list" where
  "UCN_get_next_worse_candidates self hyp_index =
     worse_candidates_from (cn self) hyp_index [0..<length hyp_index]"

text \<open>The candidates with their probabilities, as they are appended to \<^verbatim>\<open>open_hyp\<close>.\<close>

fun with_probs ::
  "UtteranceConfusionNetwork \<Rightarrow> nat list list \<Rightarrow> py_error + (real \<times> nat list) list" where
  "with_probs self [] = Inr []"
| "with_probs self (hyp_index # rest) =
     (case UCN_get_prob self hyp_index of
        Inl e \<Rightarrow> Inl e
      | Inr prob \<Rightarrow>
          (case with_probs self rest of
             Inl e \<Rightarrow> Inl e
           | Inr ps \<Rightarrow> Inr ((prob, hyp_index) # ps)))"

text \<open>
  The search loop of \<^verbatim>\<open>get_utterance_nblist\<close>.  \<^verbatim>\<open>open_hyp\<close> is a list of pairs
  \<open>(probability, index vector)\<close>; \<^verbatim>\<open>open_hyp.sort(reverse=True)\<close> orders it decreasingly in
  the lexicographic order of the pairs.  \<^verbatim>\<open>closed_hyp\<close> is a dictionary from index vectors to
  probabilities; it is modelled by the association list of its entries in the order in
  which they were inserted, which is the order in which the vectors were closed.
\<close>

function nblist_loop ::
  "UtteranceConfusionNetwork \<Rightarrow> int \<Rightarrow> int \<Rightarrow> (real \<times> nat list) list \<Rightarrow> (nat list \<times> real) list
     \<Rightarrow> py_error + (nat list \<times> real) list" where
  "nblist_loop self n i open_hyp closed_hyp =
     (if open_hyp \<noteq> [] \<and> i < n then
        (let (current_prob, current_hyp_index) = hd open_hyp;
             popped = tl open_hyp
         in if current_hyp_index \<notin> fst ` set closed_hyp then
              (case UCN_get_next_worse_candidates self current_hyp_index of
                 Inl e \<Rightarrow> Inl e
               | Inr cands \<Rightarrow>
                   (case with_probs self cands of
                      Inl e \<Rightarrow> Inl e
                    | Inr new \<Rightarrow>
                        nblist_loop self n (i + 1) (rev (sort (popped @ new)))
                          (closed_hyp @ [(current_hyp_index, current_prob)])))
            else nblist_loop self n (i + 1) popped closed_hyp)
      else Inr closed_hyp)"
  by pat_completeness auto
termination
  by (relation "measure (\<lambda>(self, n, i, open_hyp, closed_hyp). nat (n - i))") auto

declare nblist_loop.simps [simp del]

text \<open>
  \<^verbatim>\<open>get_utterance_nblist\<close> up to the end of the search: the closed vectors with their
  probabilities, in closing order.  (The n-best list that the method then builds from
  them belongs to \<^verbatim>\<open>alex.ml.hypothesis\<close>, which is not among the sources.)
\<close>

definition UCN_get_utterance_nblist_closed ::
  "UtteranceConfusionNetwork \<Rightarrow> int \<Rightarrow> py_error + (nat list \<times> real) list" where
  "UCN_get_utterance_nblist_closed self n =
     (let best_hyp = replicate (length (cn self)) 0
      in case UCN_get_prob self best_hyp of
           Inl e \<Rightarrow> Inl e
         | Inr best_prob \<Rightarrow> nblist_loop self n 0 [(best_prob, best_hyp)] [])"

subsection \<open>sort\<close>

text \<open>
  \<^verbatim>\<open>sort\<close> orders the alternatives of every slot decreasingly
  (\<^verbatim>\<open>alts.sort(reverse=True)\<close> on pairs \<open>(probability, word)\<close>).
\<close>

definition UCN_sort :: "UtteranceConfusionNetwork \<Rightarrow> UtteranceConfusionNetwork" where
  "UCN_sort self = self\<lparr>cn := map (\<lambda>alts. rev (sort alts)) (cn self)\<rparr>"

text \<open>
  The precondition of the search: every slot holds its alternatives in non-increasing
  order of probability.  Probabilities are not negative.
\<close>

definition cn_sorted :: "UtteranceConfusionNetwork \<Rightarrow> bool" where
  "cn_sorted self \<longleftrightarrow> (\<forall>alts \<in> set (cn self). sorted_wrt (\<ge>) (map fst alts))"

definition cn_nonneg :: "UtteranceConfusionNetwork \<Rightarrow> bool" where
  "cn_nonneg self \<longleftrightarrow> (\<forall>alts \<in> set (cn self). \<forall>h \<in> set alts. 0 \<le> fst h)"

text \<open>
  An index vector is admissible when it selects an existing alternative in every slot.
\<close>

definition admissible :: "hyp list list \<Rightarrow> nat list \<Rightarrow> bool" where
  "admissible slots hyp_index = list_all2 (\<lambda>altidx alts. altidx < length alts) hyp_index slots"

text \<open>The invariant of the search loop.\<close>

definition nblist_inv ::
  "UtteranceConfusionNetwork \<Rightarrow> (real \<times> nat list) list \<Rightarrow> (nat list \<times> real) list \<Rightarrow> bool" where
  "nblist_inv self open_hyp closed_hyp \<longleftrightarrow>
     (\<forall>(p, v) \<in> set open_hyp. admissible (cn self) v \<and> UCN_get_prob self v = Inr p) \<and>
     (\<forall>(v, p) \<in> set closed_hyp. UCN_get_prob self v = Inr p) \<and>
     sorted_wrt (\<ge>) (map snd closed_hyp) \<and>
     distinct (map fst closed_hyp) \<and>
     (\<forall>(p, v) \<in> set open_hyp. \<forall>(v', p') \<in> set closed_hyp. p \<le> p') \<and>
     sorted_wrt (\<lambda>a b. fst b \<le> fst a) open_hyp"

subsection \<open>Phrase search in a confusion network\<close>

text \<open>
  \<^verbatim>\<open>get_phrase_idxs\<close> returns a list of triples \<open>(word index, alternative index, start
  within the long link)\<close>; the word index is negated for a step along a long link.

  The method calls itself.  Python bounds the depth of recursion and raises
  \<open>RuntimeError\<close> beyond it; the model takes the number of nested calls that are still
  allowed as its first argument, so that it is a total function.  The body of the
  method is \<open>get_phrase_idxs_body\<close>, with the recursive call
  \<^verbatim>\<open>self.get_phrase_idxs(phrase', start', end, start_in_midlinks=False)\<close> as the
  parameter \<open>rec\<close>.
\<close>

type_synonym idx = "int \<times> nat \<times> nat"

text \<open>
  The result of a loop that may return from the method: \<open>Found\<close> is the returned value,
  \<open>NotFound\<close> carries the local variable \<^verbatim>\<open>l_idx\<close> as the loop leaves it (\<open>None\<close> while
  it is unbound).
\<close>

datatype scan_result = Found "idx list" | NotFound "nat option"

text \<open>\<^verbatim>\<open>for l_idx, link in enumerate(self._long_links[start_idx])\<close>.\<close>

primrec scan_links ::
  "(string list \<Rightarrow> nat \<Rightarrow> py_error + idx list) \<Rightarrow> string list \<Rightarrow> nat \<Rightarrow> nat \<Rightarrow> nat option
     \<Rightarrow> (nat \<times> LongLink) list \<Rightarrow> py_error + scan_result" where
  "scan_links rec phrase end_idx start_idx l_idx [] = Inr (NotFound l_idx)"
| "scan_links rec phrase end_idx start_idx l_idx (l_link # rest) =
     (let l = fst l_link;
          link = snd l_link;
          l_len = length (snd (link_hyp link))
      in if l_len = length phrase then
           (if snd (link_hyp link) = phrase then Inr (Found [(- int start_idx, l, 0)])
            else scan_links rec phrase end_idx start_idx (Some l) rest)
         else if l_len < length phrase then
           (if link_end link \<le> end_idx \<and> snd (link_hyp link) = take l_len phrase then
              (case rec (drop l_len phrase) (link_end link) of
                 Inl e \<Rightarrow> Inl e
               | Inr sub_find \<Rightarrow>
                   if sub_find \<noteq> [] then Inr (Found ((- int start_idx, l, 0) # sub_find))
                   else scan_links rec phrase end_idx start_idx (Some l) rest)
            else scan_links rec phrase end_idx start_idx (Some l) rest)
         else scan_links rec phrase end_idx start_idx (Some l) rest)"

text \<open>
  \<^verbatim>\<open>for start_idx in xrange(start, end)\<close>: first the one-word alternatives of the slot,
  then the long links that start there.
\<close>

primrec scan_starts ::
  "(string list \<Rightarrow> nat \<Rightarrow> py_error + idx list) \<Rightarrow> UtteranceConfusionNetwork \<Rightarrow> string list
     \<Rightarrow> nat \<Rightarrow> nat option \<Rightarrow> nat list \<Rightarrow> py_error + scan_result" where
  "scan_starts rec self phrase end_idx l_idx [] = Inr (NotFound l_idx)"
| "scan_starts rec self phrase end_idx l_idx (start_idx # rest) =
     (if length (cn self) \<le> start_idx then Inl IndexError
      else
        (let matching_hyps =
               filter (\<lambda>aidx_hyp. snd (snd aidx_hyp) = hd phrase) (enumerate 0 (cn self ! start_idx))
         in case (if matching_hyps \<noteq> [] then
                    (if length phrase = 1
                     then Inr (Some [(int start_idx, fst (hd matching_hyps), 0)])
                     else (case rec (tl phrase) (start_idx + 1) of
                             Inl e \<Rightarrow> Inl e
                           | Inr sub_find \<Rightarrow>
                               if sub_find \<noteq> []
                               then Inr (Some ((int start_idx, fst (hd matching_hyps), 0) # sub_find))
                               else Inr None))
                  else Inr None) of
              Inl e \<Rightarrow> Inl e
            | Inr (Some idxs) \<Rightarrow> Inr (Found idxs)
            | Inr None \<Rightarrow>
                if length (long_links self) \<le> start_idx then Inl IndexError
                else (case scan_links rec phrase end_idx start_idx l_idx
                             (enumerate 0 (long_links self ! start_idx)) of
                        Inl e \<Rightarrow> Inl e
                      | Inr (Found idxs) \<Rightarrow> Inr (Found idxs)
                      | Inr (NotFound l_idx') \<Rightarrow> scan_starts rec self phrase end_idx l_idx' rest)))"

text \<open>
  The long links that belong to the range, \<^verbatim>\<open>phrase_links\<close>, each with the starts
  \<^verbatim>\<open>xrange(1, len(link_phr))\<close> inside its phrase, in the order of the two nested loops.
\<close>

definition midlink_starts :: "UtteranceConfusionNetwork \<Rightarrow> nat \<Rightarrow> nat \<Rightarrow> (nat \<times> LongLink \<times> nat) list" where
  "midlink_starts self start end_idx =
     (let phrase_links =
            concat (map (\<lambda>(start_idx, links).
                           map (Pair start_idx) (filter (\<lambda>link. link_end link > start) links))
                      (enumerate start
                         (py_slice (long_links self) (Some (int start)) (Some (int end_idx)))))
      in concat (map (\<lambda>(start_idx, link).
                        map (\<lambda>link_start_idx. (start_idx, link, link_start_idx))
                          [1..<length (snd (link_hyp link))])
                   phrase_links))"

text \<open>
  The search for a phrase that starts in the middle of a long link.  The triple that is
  returned reads \<^verbatim>\<open>l_idx\<close>, a variable of the earlier loop over the links; reading it
  while it is unbound raises \<open>NameError\<close>.
\<close>

primrec scan_midlinks ::
  "(string list \<Rightarrow> nat \<Rightarrow> py_error + idx list) \<Rightarrow> string list \<Rightarrow> nat option
     \<Rightarrow> (nat \<times> LongLink \<times> nat) list \<Rightarrow> py_error + idx list" where
  "scan_midlinks rec phrase l_idx [] = Inr []"
| "scan_midlinks rec phrase l_idx (link_start # rest) =
     (let start_idx = fst link_start;
          link = fst (snd link_start);
          link_start_idx = snd (snd link_start);
          l_suffix = drop link_start_idx (snd (link_hyp link));
          l_len = length l_suffix
      in if l_suffix = take l_len phrase then
           (case rec (drop l_len phrase) (link_end link) of
              Inl e \<Rightarrow> Inl e
            | Inr sub_find \<Rightarrow>
                if sub_find \<noteq> [] then
                  (case l_idx of
                     None \<Rightarrow> Inl NameError
                   | Some l \<Rightarrow> Inr ((- int start_idx, l, link_start_idx) # sub_find))
                else scan_midlinks rec phrase l_idx rest)
         else scan_midlinks rec phrase l_idx rest)"

definition get_phrase_idxs_body ::
  "(string list \<Rightarrow> nat \<Rightarrow> nat \<Rightarrow> py_error + idx list) \<Rightarrow> UtteranceConfusionNetwork
     \<Rightarrow> string list \<Rightarrow> nat \<Rightarrow> nat option \<Rightarrow> bool \<Rightarrow> py_error + idx list" where
  "get_phrase_idxs_body rec self phrase start end_arg start_in_midlinks =
     (if phrase = [] then Inr [(int start, 0, 0)]
      else
        (let end_idx = (case end_arg of None \<Rightarrow> length (cn self) | Some e \<Rightarrow> e)
         in if end_idx \<le> start then Inr []
            else if \<not> (\<forall>word \<in> set phrase. word \<in> cn_wordset self) then Inr []
            else
              (case scan_starts (\<lambda>phrase' start'. rec phrase' start' end_idx) self phrase end_idx
                      None [start..<end_idx] of
                 Inl e \<Rightarrow> Inl e
               | Inr (Found idxs) \<Rightarrow> Inr idxs
               | Inr (NotFound l_idx) \<Rightarrow>
                   if start_in_midlinks
                   then scan_midlinks (\<lambda>phrase' start'. rec phrase' start' end_idx) phrase l_idx
                          (midlink_starts self start end_idx)
                   else Inr [])))"

primrec UCN_get_phrase_idxs ::
  "nat \<Rightarrow> UtteranceConfusionNetwork \<Rightarrow> string list \<Rightarrow> nat \<Rightarrow> nat option \<Rightarrow> bool
     \<Rightarrow> py_error + idx list" where
  "UCN_get_phrase_idxs 0 self phrase start end_arg start_in_midlinks =
     get_phrase_idxs_body (\<lambda>phrase' start' end_idx. Inl RuntimeError)
       self phrase start end_arg start_in_midlinks"
| "UCN_get_phrase_idxs (Suc depth) self phrase start end_arg start_in_midlinks =
     get_phrase_idxs_body
       (\<lambda>phrase' start' end_idx. UCN_get_phrase_idxs depth self phrase' start' (Some end_idx) False)
       self phrase start end_arg start_in_midlinks"

text \<open>
  \<^verbatim>\<open>find\<close> and \<^verbatim>\<open>index\<close> of the confusion network.  \<^verbatim>\<open>index\<close> calls \<^verbatim>\<open>self.find(phrase)\<close>:
  it ignores its arguments \<^verbatim>\<open>start\<close> and \<^verbatim>\<open>end\<close>.
\<close>

definition UCN_find ::
  "nat \<Rightarrow> UtteranceConfusionNetwork \<Rightarrow> string list \<Rightarrow> nat \<Rightarrow> nat option \<Rightarrow> py_error + int" where
  "UCN_find depth self phrase start end_arg =
     (case UCN_get_phrase_idxs depth self phrase start end_arg True of
        Inl e \<Rightarrow> Inl e
      | Inr idxs \<Rightarrow> if idxs \<noteq> [] then Inr (abs (fst (hd idxs))) else Inr (- 1))"

definition UCN_index ::
  "nat \<Rightarrow> UtteranceConfusionNetwork \<Rightarrow> string list \<Rightarrow> nat \<Rightarrow> nat option \<Rightarrow> py_error + int" where
  "UCN_index depth self phrase start end_arg =
     (case UCN_find depth self phrase 0 None of
        Inl e \<Rightarrow> Inl e
      | Inr i \<Rightarrow> if i = - 1 then Inl ValueError else Inr i)"

text \<open>
  Well-formedness of a confusion network, as its constructor, \<^verbatim>\<open>add\<close> and the
  replacement of phrases maintain it: every slot has its list of long links, and a long
  link carries at least one word and at least one original probability.
\<close>

definition ucn_wf :: "UtteranceConfusionNetwork \<Rightarrow> bool" where
  "ucn_wf self \<longleftrightarrow>
     length (cn self) \<le> length (long_links self) \<and>
     (\<forall>links \<in> set (long_links self). \<forall>link \<in> set links.
        snd (link_hyp link) \<noteq> [] \<and> orig_probs link \<noteq> [])"

subsection \<open>n-grams and features of a confusion network\<close>

definition UCN_isempty :: "UtteranceConfusionNetwork \<Rightarrow> bool" where
  "UCN_isempty self \<longleftrightarrow> cn self = [] \<and> \<not> (\<exists>links \<in> set (long_links self). links \<noteq> [])"

text \<open>A loop that concatenates what its body yields and stops at the first exception.\<close>

primrec collect :: "('a \<Rightarrow> py_error + 'b list) \<Rightarrow> 'a list \<Rightarrow> py_error + 'b list" where
  "collect f [] = Inr []"
| "collect f (x # xs) =
     (case f x of
        Inl e \<Rightarrow> Inl e
      | Inr ys \<Rightarrow> (case collect f xs of Inl e \<Rightarrow> Inl e | Inr zs \<Rightarrow> Inr (ys @ zs)))"

text \<open>
  \<^verbatim>\<open>iter_ngrams\<close> for \<open>n = 1\<close>: what the loop \<^verbatim>\<open>for start_idx in start_iter\<close> yields.
  \<open>has_start\<close> says that \<^verbatim>\<open>start\<close> is not \<^verbatim>\<open>None\<close>.
\<close>

definition unigrams_at ::
  "UtteranceConfusionNetwork \<Rightarrow> bool \<Rightarrow> nat \<Rightarrow> py_error + (real \<times> string list) list" where
  "unigrams_at self has_start start_idx =
     (if length (cn self) \<le> start_idx \<or> length (long_links self) \<le> start_idx then Inl IndexError
      else
        (case collect (\<lambda>link.
                 if length (snd (link_hyp link)) = 1 then Inr [link_hyp link]
                 else if has_start then
                   (if snd (link_hyp link) = [] then Inl IndexError
                    else Inr [(fst (link_hyp link), [snd (link_hyp link) ! 0])])
                 else Inr (map (\<lambda>word. (fst (link_hyp link), [word])) (snd (link_hyp link))))
               (long_links self ! start_idx) of
           Inl e \<Rightarrow> Inl e
         | Inr from_links \<Rightarrow>
             Inr (map (\<lambda>hyp. (fst hyp, [snd hyp])) (cn self ! start_idx) @ from_links)))"

text \<open>
  \<^verbatim>\<open>iter_ngrams\<close> for \<open>n > 1\<close>: what one long link that starts at the slot yields, first
  the n-grams inside the link, then those that start in the link and continue after it.
\<close>

definition ngrams_of_link ::
  "(int \<Rightarrow> nat option \<Rightarrow> py_error + (real \<times> string list) list) \<Rightarrow> int \<Rightarrow> bool \<Rightarrow> LongLink
     \<Rightarrow> py_error + (real \<times> string list) list" where
  "ngrams_of_link rec n has_start link =
     (let l_phrase = snd (link_hyp link);
          l_len = int (length l_phrase);
          prob = fst (link_hyp link);
          inside = map (\<lambda>lsidx. (prob, py_slice l_phrase (Some lsidx) (Some (lsidx + n))))
                     (xrange 0 (l_len - n + 1));
          min_startidx = (if l_len = n then 1 else max 0 (l_len - n));
          end_startidx = (if has_start then 1 else l_len)
      in case collect (\<lambda>lsidx.
                 (let len_prefix = l_len - lsidx;
                      phr_prefix = py_slice l_phrase (Some lsidx) None
                  in case rec (n - len_prefix) (Some (link_end link)) of
                       Inl e \<Rightarrow> Inl e
                     | Inr subs \<Rightarrow>
                         Inr (map (\<lambda>(sub_prob, sub_ngram). (prob * sub_prob, phr_prefix @ sub_ngram))
                                subs)))
               (xrange min_startidx end_startidx) of
           Inl e \<Rightarrow> Inl e
         | Inr later \<Rightarrow> Inr (inside @ later))"

text \<open>What one start index yields for \<open>n > 1\<close>.\<close>

definition ngrams_at ::
  "(int \<Rightarrow> nat option \<Rightarrow> py_error + (real \<times> string list) list) \<Rightarrow> UtteranceConfusionNetwork
     \<Rightarrow> int \<Rightarrow> bool \<Rightarrow> nat \<Rightarrow> py_error + (real \<times> string list) list" where
  "ngrams_at rec self n has_start start_idx =
     (if length (cn self) \<le> start_idx then Inl IndexError
      else
        (case rec (n - 1) (Some (start_idx + 1)) of
           Inl e \<Rightarrow> Inl e
         | Inr sub_hyps \<Rightarrow>
             (let here =
                    concat (map (\<lambda>(prob, word).
                                   map (\<lambda>(sub_prob, sub_ngram). (sub_prob * prob, word # sub_ngram))
                                     sub_hyps)
                              (cn self ! start_idx))
              in if length (long_links self) \<le> start_idx then Inl IndexError
                 else (case collect (ngrams_of_link rec n has_start) (long_links self ! start_idx) of
                         Inl e \<Rightarrow> Inl e
                       | Inr from_links \<Rightarrow> Inr (here @ from_links)))))"

definition iter_ngrams_body ::
  "(int \<Rightarrow> nat option \<Rightarrow> py_error + (real \<times> string list) list) \<Rightarrow> UtteranceConfusionNetwork
     \<Rightarrow> int \<Rightarrow> bool \<Rightarrow> nat option \<Rightarrow> py_error + (real \<times> string list) list" where
  "iter_ngrams_body rec self n with_boundaries start =
     (case (case start of
              Some s \<Rightarrow>
                if s < length (cn self) then Some [s]
                else if s = length (cn self) \<and> with_boundaries then Some []
                else None
            | None \<Rightarrow> Some [0..<length (cn self)]) of
        None \<Rightarrow> Inr []
      | Some start_iter \<Rightarrow>
          if n = 1 then
            (case collect (unigrams_at self (start \<noteq> None)) start_iter of
               Inl e \<Rightarrow> Inl e
             | Inr grams \<Rightarrow>
                 Inr ((if with_boundaries \<and> start = None then [(1, [SENTENCE_START])] else [])
                      @ grams
                      @ (if with_boundaries \<and> start = None \<or> start = Some (length (cn self))
                         then [(1, [SENTENCE_END])] else [])))
          else if n > 1 then
            (case (if with_boundaries \<and> start = None
                   then (case rec (n - 1) (Some 0) of
                           Inl e \<Rightarrow> Inl e
                         | Inr subs \<Rightarrow>
                             Inr (map (\<lambda>(prob, sub_ngram). (prob, SENTENCE_START # sub_ngram)) subs))
                   else Inr []) of
               Inl e \<Rightarrow> Inl e
             | Inr from_start \<Rightarrow>
                 (case collect (ngrams_at rec self n (start \<noteq> None)) start_iter of
                    Inl e \<Rightarrow> Inl e
                  | Inr normal \<Rightarrow> Inr (from_start @ normal)))
          else Inr [])"

text \<open>
  \<^verbatim>\<open>iter_ngrams\<close> calls itself; as for \<open>UCN_get_phrase_idxs\<close>, the first argument is the
  number of nested calls that Python still allows.  The generator is modelled by the list
  of the pairs \<open>(probability, n-gram)\<close> that it yields.
\<close>

primrec UCN_iter_ngrams ::
  "nat \<Rightarrow> UtteranceConfusionNetwork \<Rightarrow> int \<Rightarrow> bool \<Rightarrow> nat option
     \<Rightarrow> py_error + (real \<times> string list) list" where
  "UCN_iter_ngrams 0 self n with_boundaries start =
     iter_ngrams_body (\<lambda>n' start'. Inl RuntimeError) self n with_boundaries start"
| "UCN_iter_ngrams (Suc depth) self n with_boundaries start =
     iter_ngrams_body (\<lambda>n' start'. UCN_iter_ngrams depth self n' with_boundaries start')
       self n with_boundaries start"

text \<open>
  \<^verbatim>\<open>prob ** e\<close> for a fractional exponent: Python 2 raises \<open>ValueError\<close> for a negative
  base.
\<close>

definition py_pow :: "real \<Rightarrow> real \<Rightarrow> py_error + real" where
  "py_pow x e = (if x < 0 then Inl ValueError else Inr (x powr e))"

text \<open>
  The loops of \<^verbatim>\<open>UtteranceConfusionNetworkFeatures.parse\<close> over the n-grams of one length:
  the n-gram is counted with weight \<^verbatim>\<open>prob ** e\<close>, and for the lengths 3 and 4 the skip
  n-gram \<^verbatim>\<open>(ngram[0], star, ngram[k])\<close> with weight \<^verbatim>\<open>prob ** .5\<close>.
\<close>

primrec add_weighted_ngrams ::
  "real \<Rightarrow> (nat \<times> string) option \<Rightarrow> (real \<times> string list) list \<Rightarrow> feature_map
     \<Rightarrow> py_error + feature_map" where
  "add_weighted_ngrams e skip [] fs = Inr fs"
| "add_weighted_ngrams e skip (prob_ngram # rest) fs =
     (let prob = fst prob_ngram; ngram = snd prob_ngram
      in case py_pow prob e of
           Inl err \<Rightarrow> Inl err
         | Inr weight \<Rightarrow>
             (let fs1 = feat_add fs (FTuple ngram) weight
              in case skip of
                   None \<Rightarrow> add_weighted_ngrams e skip rest fs1
                 | Some (k, star) \<Rightarrow>
                     if length ngram \<le> k then Inl IndexError
                     else (case py_pow prob 0.5 of
                             Inl err \<Rightarrow> Inl err
                           | Inr skip_weight \<Rightarrow>
                               add_weighted_ngrams e skip rest
                                 (feat_add fs1 (FTuple [ngram ! 0, star, ngram ! k]) skip_weight))))"

text \<open>One length of n-grams: \<^verbatim>\<open>for prob, ngram in confnet.iter_ngrams(n, with_boundaries=True)\<close>.\<close>

definition add_confnet_ngrams ::
  "nat \<Rightarrow> UtteranceConfusionNetwork \<Rightarrow> int \<Rightarrow> real \<Rightarrow> (nat \<times> string) option \<Rightarrow> feature_map
     \<Rightarrow> py_error + feature_map" where
  "add_confnet_ngrams depth confnet n e skip fs =
     (case UCN_iter_ngrams depth confnet n True None of
        Inl err \<Rightarrow> Inl err
      | Inr ngrams \<Rightarrow> add_weighted_ngrams e skip ngrams fs)"

primrec add_longer_ngrams ::
  "nat \<Rightarrow> UtteranceConfusionNetwork \<Rightarrow> int list \<Rightarrow> feature_map \<Rightarrow> py_error + feature_map" where
  "add_longer_ngrams depth confnet [] fs = Inr fs"
| "add_longer_ngrams depth confnet (len # rest) fs =
     (case add_confnet_ngrams depth confnet len (1 / real_of_int len) None fs of
        Inl err \<Rightarrow> Inl err
      | Inr fs1 \<Rightarrow> add_longer_ngrams depth confnet rest fs1)"

text \<open>
  \<^verbatim>\<open>UtteranceConfusionNetworkFeatures.parse\<close>.  The class has the fields of
  \<^verbatim>\<open>UtteranceFeatures\<close>.
\<close>

definition UtteranceConfusionNetworkFeatures_parse ::
  "nat \<Rightarrow> UtteranceFeatures \<Rightarrow> UtteranceConfusionNetwork \<Rightarrow> py_error + UtteranceFeatures" where
  "UtteranceConfusionNetworkFeatures_parse depth self confnet =
     (case (if UCN_isempty confnet then
              Inr (feat_add (features self) (FStr ''__empty__'') 1)
            else if feat_type self = ''ngram'' then
              (let f1 = foldl (\<lambda>fs hyp. feat_add fs (FTuple [snd hyp]) (fst hyp))
                          (features self) (concat (cn confnet))
               in case (if feat_size self \<ge> 2
                        then add_confnet_ngrams depth confnet 2 0.5 None f1 else Inr f1) of
                    Inl e \<Rightarrow> Inl e
                  | Inr f2 \<Rightarrow>
                      (case (if feat_size self \<ge> 3
                             then add_confnet_ngrams depth confnet 3 (1 / 3) (Some (2, ''*1'')) f2
                             else Inr f2) of
                         Inl e \<Rightarrow> Inl e
                       | Inr f3 \<Rightarrow>
                           (case (if feat_size self \<ge> 4
                                  then add_confnet_ngrams depth confnet 4 0.25 (Some (3, ''*2'')) f3
                                  else Inr f3) of
                              Inl e \<Rightarrow> Inl e
                            | Inr f4 \<Rightarrow>
                                add_longer_ngrams depth confnet (xrange 5 (feat_size self + 1)) f4)))
            else Inl NotImplementedError) of
        Inl e \<Rightarrow> Inl e
      | Inr fs \<Rightarrow>
          if fs = Map.empty then Inl UtteranceConfusionNetworkException
          else Inr (self\<lparr>features := fs\<rparr>))"

text \<open>
  The constructors \<^verbatim>\<open>UtteranceFeatures(type, size)\<close> and
  \<^verbatim>\<open>UtteranceConfusionNetworkFeatures(type, size)\<close> without an utterance or a confusion
  network to parse: an empty feature vector.
\<close>

definition UtteranceFeatures_init :: "string \<Rightarrow> int \<Rightarrow> UtteranceFeatures" where
  "UtteranceFeatures_init ftype fsize = \<lparr>feat_type = ftype, feat_size = fsize, features = Map.empty\<rparr>"

subsection \<open>normalise\<close>















subsection \<open>replace\<close>














section \<open>Verified properties\<close>

subsection \<open>Phrase search in an utterance\<close>

lemma max_skip_from_no_initial:
  "i < length ws \<Longrightarrow> word_count + i < max_skip_from initial word_count ws dflt \<Longrightarrow>
   word_count + length ws \<le> dflt \<Longrightarrow> ws ! i \<noteq> initial"
proof (induction ws arbitrary: word_count i)
  case Nil
  then show ?case by simp
next
  case (Cons w ws)
  show ?case
  proof (cases i)
    case 0
    with Cons.prems show ?thesis by (auto split: if_splits)
  next
    case (Suc j)
    with Cons.prems Cons.IH [of j "Suc word_count"] show ?thesis
      by (auto split: if_splits)
  qed
qed

lemma max_skip_no_initial:
  assumes "1 \<le> d" "d < max_skip phrase" "d < length phrase"
  shows "phrase ! d \<noteq> hd phrase"
proof -
  from assms obtain w ws where p: "phrase = w # ws" by (cases phrase) auto
  from assms obtain j where d: "d = Suc j" by (cases d) auto
  have "ws ! j \<noteq> w"
    using max_skip_from_no_initial [of j ws 1 w "length phrase"] assms p d
    by (simp add: max_skip_def)
  with p d show ?thesis by simp
qed

lemma check_subsequent_upt:
  assumes "match_idx + length phrase \<le> length utt" "k \<le> length phrase"
  shows "check_subsequent utt phrase match_idx [k..<length phrase] =
     (if \<forall>j. k \<le> j \<and> j < length phrase \<longrightarrow> utt ! (match_idx + j) = phrase ! j then Inr None
      else Inr (Some (LEAST j. k \<le> j \<and> j < length phrase \<and> utt ! (match_idx + j) \<noteq> phrase ! j)))"
  using assms
proof (induction "length phrase - k" arbitrary: k)
  case 0
  then show ?case by simp
next
  case (Suc n)
  then have lt: "k < length phrase" by simp
  then have upt: "[k..<length phrase] = k # [Suc k..<length phrase]"
    by (simp add: upt_conv_Cons)
  show ?case
  proof (cases "utt ! (match_idx + k) = phrase ! k")
    case False
    have "(LEAST j. k \<le> j \<and> j < length phrase \<and> utt ! (match_idx + j) \<noteq> phrase ! j) = k"
      using False lt by (intro Least_equality) auto
    with False lt Suc.prems show ?thesis
      by (auto simp: upt)
  next
    case True
    have eq: "(k \<le> j \<and> j < length phrase \<and> utt ! (match_idx + j) \<noteq> phrase ! j)
      = (Suc k \<le> j \<and> j < length phrase \<and> utt ! (match_idx + j) \<noteq> phrase ! j)" for j
      using True by (cases "j = k") auto
    have eq2: "(\<forall>j. k \<le> j \<and> j < length phrase \<longrightarrow> utt ! (match_idx + j) = phrase ! j)
       = (\<forall>j. Suc k \<le> j \<and> j < length phrase \<longrightarrow> utt ! (match_idx + j) = phrase ! j)"
      using eq by blast
    have IH: "check_subsequent utt phrase match_idx [Suc k..<length phrase] =
     (if \<forall>j. Suc k \<le> j \<and> j < length phrase \<longrightarrow> utt ! (match_idx + j) = phrase ! j then Inr None
      else Inr (Some (LEAST j. Suc k \<le> j \<and> j < length phrase \<and> utt ! (match_idx + j) \<noteq> phrase ! j)))"
      using Suc.hyps(1) [of "Suc k"] Suc.hyps(2) Suc.prems lt by simp
    show ?thesis
      unfolding upt using True lt Suc.prems IH eq eq2 by simp
  qed
qed

lemma take_drop_eq_iff:
  assumes "p \<noteq> []"
  shows "(take (length p) (drop i utt) = p) \<longleftrightarrow> i + length p \<le> length utt \<and> (\<forall>j < length p. utt ! (i + j) = p ! j)"
proof
  assume "(take (length p) (drop i utt) = p)"
  then have eq: "take (length p) (drop i utt) = p" .
  then have "length (take (length p) (drop i utt)) = length p"
    by simp
  then have "min (length p) (length utt - i) = length p"
    by simp
  moreover from assms have "0 < length p"
    by simp
  ultimately have len: "i + length p \<le> length utt"
    by arith
  have "utt ! (i + j) = p ! j" if "j < length p" for j
  proof -
    have "p ! j = take (length p) (drop i utt) ! j" using eq by simp
    also have "\<dots> = utt ! (i + j)" using that len by simp
    finally show ?thesis by simp
  qed
  with len show "i + length p \<le> length utt \<and> (\<forall>j < length p. utt ! (i + j) = p ! j)"
    by simp
next
  assume a: "i + length p \<le> length utt \<and> (\<forall>j < length p. utt ! (i + j) = p ! j)"
  show "(take (length p) (drop i utt) = p)"
    by (rule nth_equalityI) (use a in auto)
qed

lemma find_loop_correct:
  assumes "phrase \<noteq> []"
    and "last_idx = int (length utt) - int (length phrase)"
    and "\<forall>j < match_idx. \<not> (take (length phrase) (drop j utt) = phrase)"
  shows "find_loop utt phrase last_idx match_idx =
     (if \<exists>i. (take (length phrase) (drop i utt) = phrase) then Inr (int (LEAST i. (take (length phrase) (drop i utt) = phrase))) else Inr (- 1))"
  using assms
proof (induction utt phrase last_idx match_idx rule: find_loop.induct)
  case (1 utt phrase last_idx match_idx)
  note simps = find_loop.simps [of utt phrase last_idx match_idx]
  show ?case
  proof (cases "int match_idx \<le> last_idx")
    case False
    have "\<not> (take (length phrase) (drop i utt) = phrase)" for i
    proof (cases "i < match_idx")
      case True
      with 1 show ?thesis by simp
    next
      case ge: False
      with False 1(4) show ?thesis
        unfolding take_drop_eq_iff [OF 1(3)] by auto
    qed
    with False show ?thesis
      by (simp add: simps)
  next
    case le: True
    with 1(3,4) have fits: "match_idx + length phrase \<le> length utt" and inr: "match_idx < length utt"
      by (auto simp: neq_Nil_conv)
    show ?thesis
    proof (cases "utt ! match_idx = hd phrase")
      case False
      then have "\<not> (take (length phrase) (drop match_idx utt) = phrase)"
        using 1(3) unfolding take_drop_eq_iff [OF 1(3)] by (auto simp: hd_conv_nth)
      with 1(5) have "\<forall>j < match_idx + 1. \<not> (take (length phrase) (drop j utt) = phrase)"
        by (auto simp: less_Suc_eq)
      from 1(2) [OF le _ False 1(3,4) this] inr have
        "find_loop utt phrase last_idx (match_idx + 1) =
         (if \<exists>i. (take (length phrase) (drop i utt) = phrase) then Inr (int (LEAST i. (take (length phrase) (drop i utt) = phrase))) else Inr (- 1))"
        by simp
      with le inr False show ?thesis
        by (simp add: simps)
    next
      case hd: True
      let ?M = "\<lambda>j. 1 \<le> j \<and> j < length phrase \<and> utt ! (match_idx + j) \<noteq> phrase ! j"
      have cs: "check_subsequent utt phrase match_idx [1..<length phrase] =
        (if \<forall>j. 1 \<le> j \<and> j < length phrase \<longrightarrow> utt ! (match_idx + j) = phrase ! j then Inr None
         else Inr (Some (LEAST j. ?M j)))"
        using check_subsequent_upt [OF fits, of 1] 1(3) by (simp add: Suc_le_eq)
      show ?thesis
      proof (cases "\<forall>j. 1 \<le> j \<and> j < length phrase \<longrightarrow> utt ! (match_idx + j) = phrase ! j")
        case True
        have "utt ! (match_idx + j) = phrase ! j" if "j < length phrase" for j
          using True hd that 1(3) by (cases j) (auto simp: hd_conv_nth)
        with fits have occ: "(take (length phrase) (drop match_idx utt) = phrase)"
          unfolding take_drop_eq_iff [OF 1(3)] by simp
        have "(LEAST i. (take (length phrase) (drop i utt) = phrase)) = match_idx"
          using occ 1(5) by (intro Least_equality) (auto simp: not_less [symmetric])
        with occ cs True le inr hd show ?thesis
          by (auto simp: simps)
      next
        case False
        define k where "k = (LEAST j. ?M j)"
        from False have ex: "\<exists>j. ?M j" by blast
        have Mk: "?M k" unfolding k_def using ex by (rule LeastI_ex)
        have least: "\<not> ?M j" if "j < k" for j
          using that not_less_Least unfolding k_def by blast
        have csk: "check_subsequent utt phrase match_idx [1..<length phrase] = Inr (Some k)"
          using cs False k_def by simp
        have "\<not> (take (length phrase) (drop j utt) = phrase)" if "j < match_idx + min (max_skip phrase) k" for j
        proof (cases "j < match_idx")
          case True
          with 1(5) show ?thesis by simp
        next
          case ge: False
          define d where "d = j - match_idx"
          with ge have j: "j = match_idx + d" by simp
          with that have dk: "d < k" and dm: "d < max_skip phrase" by auto
          show ?thesis
          proof (cases "d = 0")
            case True
            with j Mk show ?thesis unfolding take_drop_eq_iff [OF 1(3)] by auto
          next
            case False
            then have d1: "1 \<le> d" by simp
            from dk Mk have dl: "d < length phrase" by simp
            from least [OF dk] d1 dl have "utt ! (match_idx + d) = phrase ! d" by simp
            moreover have "phrase ! d \<noteq> hd phrase"
              using max_skip_no_initial [OF d1 dm dl] .
            ultimately have "utt ! j \<noteq> phrase ! 0"
              using j 1(3) by (simp add: hd_conv_nth)
            then show ?thesis
              unfolding take_drop_eq_iff [OF 1(3)] using 1(3) by auto
          qed
        qed
        then have "\<forall>j < match_idx + min (max_skip phrase) k. \<not> (take (length phrase) (drop j utt) = phrase)"
          by blast
        from 1(1) [OF le _ hd csk _ 1(3,4) this] inr
        have "find_loop utt phrase last_idx (match_idx + min (max_skip phrase) k) =
         (if \<exists>i. (take (length phrase) (drop i utt) = phrase) then Inr (int (LEAST i. (take (length phrase) (drop i utt) = phrase))) else Inr (- 1))"
          by simp
        with le inr hd csk show ?thesis
          by (simp add: simps)
      qed
    qed
  qed
qed

text \<open>
  Claim C4.  For an utterance whose word set is the set of its words (what the
  constructor and the setter establish) and a non-empty phrase \<open>p\<close>, \<open>find\<close> returns
  the least index at which the words of the utterance equal \<open>p\<close>, and \<open>-1\<close> when there
  is no such index: skipping after a partial match loses no occurrence.  In particular
  \<^verbatim>\<open>Utterance('book a table for two').find(['table', 'for'])\<close> is 2.
\<close>

theorem Utterance_find_leftmost:
  assumes "wordset u = set (utterance u)" and "p \<noteq> []"
  shows "Utterance_find u p =
           (if \<exists>i. take (length p) (drop i (utterance u)) = p
            then Inr (int (LEAST i. take (length p) (drop i (utterance u)) = p))
            else Inr (- 1))
         \<and> Utterance_find (Utterance_init ''book a table for two'') [''table'', ''for''] = Inr 2"
proof
  show "Utterance_find u p =
           (if \<exists>i. take (length p) (drop i (utterance u)) = p
            then Inr (int (LEAST i. take (length p) (drop i (utterance u)) = p))
            else Inr (- 1))"
  proof (cases "\<forall>word \<in> set p. word \<in> wordset u")
    case True
    with assms find_loop_correct [of p _ "utterance u" 0] show ?thesis
      by (simp add: Utterance_find_def)
  next
    case False
    then obtain w where w: "w \<in> set p" "w \<notin> set (utterance u)"
      using assms by auto
    have "take (length p) (drop i (utterance u)) \<noteq> p" for i
    proof
      assume "take (length p) (drop i (utterance u)) = p"
      then have "set p \<subseteq> set (utterance u)"
        by (metis set_take_subset set_drop_subset subset_trans)
      with w show False by auto
    qed
    with False assms show ?thesis
      by (simp add: Utterance_find_def)
  qed
  show "Utterance_find (Utterance_init ''book a table for two'') [''table'', ''for''] = Inr 2"
    by (simp add: Utterance_find_def Utterance_init_def str_split_def is_space_def
        find_loop.simps max_skip_def)
qed

text \<open>
  The theorem at \<^verbatim>\<open>Utterance('a a b a a a b').find(['a', 'a', 'a'])\<close>, where the search
  skips after two partial matches: the least index of an occurrence is 3.
\<close>

theorem Utterance_find_leftmost_witness:
  "wordset (Utterance_init ''a a b a a a b'') = set (utterance (Utterance_init ''a a b a a a b''))
   \<and> [''a'', ''a'', ''a''] \<noteq> ([] :: string list)
   \<and> Utterance_find (Utterance_init ''a a b a a a b'') [''a'', ''a'', ''a''] = Inr 3
   \<and> (\<exists>i. take (length [''a'', ''a'', ''a''])
              (drop i (utterance (Utterance_init ''a a b a a a b''))) = [''a'', ''a'', ''a''])
   \<and> (LEAST i. take (length [''a'', ''a'', ''a''])
              (drop i (utterance (Utterance_init ''a a b a a a b''))) = [''a'', ''a'', ''a'']) = 3"
proof -
  let ?u = "Utterance_init ''a a b a a a b''"
  let ?p = "[''a'', ''a'', ''a'']"
  have h1: "wordset ?u = set (utterance ?u)"
    by (simp add: Utterance_init_def)
  have h2: "?p \<noteq> []"
    by simp
  have ev: "Utterance_find ?u ?p = Inr 3"
    by (simp add: Utterance_find_def Utterance_init_def str_split_def is_space_def
        find_loop.simps max_skip_def)
  let ?E = "\<exists>i. take (length ?p) (drop i (utterance ?u)) = ?p"
  let ?L = "LEAST i. take (length ?p) (drop i (utterance ?u)) = ?p"
  from Utterance_find_leftmost [OF h1 h2]
  have eq: "Utterance_find ?u ?p = (if ?E then Inr (int ?L) else Inr (- 1))"
    by (rule conjunct1)
  have E: ?E
  proof (rule ccontr)
    assume "\<not> ?E"
    with eq have "Utterance_find ?u ?p = Inr (- 1)"
      by (simp only: if_False)
    with ev show False
      by simp
  qed
  with eq have "Utterance_find ?u ?p = Inr (int ?L)"
    by (simp only: if_True)
  with ev have "int ?L = 3"
    by (simp only: sum.inject)
  then have L: "?L = 3"
    by (simp only: of_nat_eq_iff [of _ 3, simplified])
  from h1 h2 ev E L show ?thesis
    by (intro conjI)
qed

subsection \<open>n-gram windows of an utterance\<close>

lemma Utterance_iter_ngrams_window_length:
  assumes "1 \<le> n" and "2 \<le> n \<or> \<not> with_boundaries"
    and "w \<in> set (Utterance_iter_ngrams u n with_boundaries)"
  shows "int (length w) = n"
  using assms
  by (auto simp: Utterance_iter_ngrams_def Let_def py_slice_def slice_bound_def xrange_def
       split: if_splits)

lemma Utterance_iter_ngrams_short:
  assumes "int (length (utterance u)) \<le> n - (if with_boundaries then 2 else 0)"
  shows "length (Utterance_iter_ngrams u n with_boundaries) \<le> 1"
  using assms
  by (auto simp: Utterance_iter_ngrams_def Let_def)

text \<open>
  Claim C7 says that every window that \<^verbatim>\<open>iter_ngrams(n, with_boundaries)\<close> yields has
  exactly \<open>n\<close> tokens, for every \<open>n \<ge> 1\<close>.  The code at
  \<^verbatim>\<open>Utterance('a b').iter_ngrams(1, with_boundaries=True)\<close>: the final window is
  \<^verbatim>\<open>self._utterance[-(n - 1):] + [SENTENCE_END]\<close>, and for \<open>n = 1\<close> the slice \<^verbatim>\<open>[-0:]\<close> is the
  whole utterance, so the last window has three tokens.  (For \<open>n \<ge> 2\<close>, and for every
  \<open>n \<ge> 1\<close> without boundaries, the windows do have \<open>n\<close> tokens, and a short utterance
  yields at most one window: the two lemmas above.)
\<close>

theorem Utterance_iter_ngrams_unigram_with_boundaries:
  "Utterance_iter_ngrams (Utterance_init ''a b'') 1 True =
     [[''<s>''], [''a''], [''b''], [''a'', ''b'', ''</s>'']]"
  by (simp add: Utterance_iter_ngrams_def Utterance_init_def str_split_def is_space_def
      py_slice_def slice_bound_def xrange_def SENTENCE_START_def SENTENCE_END_def upto.simps)

subsection \<open>Pruning\<close>

lemma prune_loop_IndexError:
  assumes "alts \<in> set slots"
    and "alts \<noteq> []"
    and "\<not> (snd (hd alts) = [] \<and> fst (hd alts) > 1 - prune_prob)"
    and "\<forall>h \<in> set alts. fst h < prune_prob"
  shows "prune_loop prune_prob pruned_cn slots = Inl IndexError"
  using assms(1)
proof (induction slots arbitrary: pruned_cn)
  case Nil
  then show ?case by simp
next
  case (Cons s slots)
  show ?case
  proof (cases "s = alts")
    case True
    from assms(4) have "filter (\<lambda>(p, w). \<not> p < prune_prob) alts = []"
      by (auto simp: filter_empty_conv)
    with True assms(2,3) show ?thesis
      by (cases alts) (auto split: prod.splits)
  next
    case False
    with Cons.prems have "alts \<in> set slots" by simp
    then have "prune_loop prune_prob acc slots = Inl IndexError" for acc
      by (rule Cons.IH)
    then show ?thesis
      by (auto simp: Let_def split: list.splits prod.splits)
  qed
qed

text \<open>
  Claim C5 says that after \<^verbatim>\<open>prune(prune_prob)\<close> no remaining slot contains an
  alternative whose probability is below \<open>prune_prob\<close>.  The code at the confusion network
  with the single slot \<open>[(0.9995, a), (0.0005, b)]\<close> and the default \<open>prune_prob = 0.001\<close>:
  the filtered list \<^verbatim>\<open>pruned_alts\<close> is built, but \<^verbatim>\<open>pruned_cn.append(alts)\<close> keeps the
  unfiltered slot, so the alternative with probability 0.0005 remains.
\<close>

theorem UCN_prune_keeps_low_alternative:
  "UCN_prune \<lparr>abstr_idxs = [], cn = [[(0.9995, ''a''), (0.0005, ''b'')]],
              cn_wordset = {''a'', ''b''}, long_links = [[]]\<rparr> 0.001
   = Inr \<lparr>abstr_idxs = [], cn = [[(0.9995, ''a''), (0.0005, ''b'')]],
           cn_wordset = {''a'', ''b''}, long_links = [[]]\<rparr>"
  by (simp add: UCN_prune_def insert_commute)

text \<open>
  Claim C10.  \<^verbatim>\<open>prune\<close> is not total: there is a confusion network and a \<open>prune_prob\<close> on
  which it raises \<open>IndexError\<close>.  Whenever some slot has a first alternative that is not
  silence of probability above \<open>1 - prune_prob\<close>, and every alternative of that slot has
  a probability below \<open>prune_prob\<close>, the filtered list of the slot is empty and
  \<^verbatim>\<open>pruned_alts[0]\<close> is out of range (an earlier slot can only fail in the same way).
\<close>

theorem UCN_prune_not_total:
  assumes "alts \<in> set (cn self)"
    and "alts \<noteq> []"
    and "\<not> (snd (hd alts) = [] \<and> fst (hd alts) > 1 - prune_prob)"
    and "\<forall>h \<in> set alts. fst h < prune_prob"
  shows "UCN_prune self prune_prob = Inl IndexError
         \<and> (\<exists>c p. UCN_prune c p = Inl IndexError)"
proof -
  have "UCN_prune self prune_prob = Inl IndexError"
    using prune_loop_IndexError [OF assms] by (simp add: UCN_prune_def)
  then show ?thesis
    by blast
qed

theorem UCN_prune_not_total_witness:
  "UCN_prune \<lparr>abstr_idxs = [], cn = [[(0.7, ''a''), (0.3, ''b'')], [(0.0004, ''c''), (0.0002, ''d'')]],
              cn_wordset = {''a'', ''b'', ''c'', ''d''}, long_links = [[], []]\<rparr> 0.001
   = Inl IndexError"
proof -
  let ?c = "\<lparr>abstr_idxs = [], cn = [[(0.7, ''a''), (0.3, ''b'')], [(0.0004, ''c''), (0.0002, ''d'')]],
              cn_wordset = {''a'', ''b'', ''c'', ''d''}, long_links = [[], []]\<rparr>"
  let ?alts = "[(0.0004 :: real, ''c''), (0.0002, ''d'')]"
  have 1: "?alts \<in> set (cn ?c)" by simp
  have 2: "?alts \<noteq> []" by simp
  have 3: "\<not> (snd (hd ?alts) = [] \<and> fst (hd ?alts) > 1 - 0.001)" by simp
  have 4: "\<forall>h \<in> set ?alts. fst h < 0.001" by simp
  from UCN_prune_not_total [OF 1 2 3 4] show ?thesis
    by (rule conjunct1)
qed

subsection \<open>N-best expansion\<close>

lemma get_prob_from_admissible:
  "list_all2 (\<lambda>altidx alts. altidx < length alts) v slots \<Longrightarrow>
   get_prob_from acc v slots = Inr (acc * prod_list (map2 (\<lambda>altidx alts. fst (alts ! altidx)) v slots))"
  by (induction v slots arbitrary: acc rule: list_all2_induct) (auto simp: mult.assoc)

lemma prod_list_mono_nonneg:
  fixes xs ys :: "real list"
  shows "list_all2 (\<lambda>x y. 0 \<le> x \<and> x \<le> y) xs ys \<Longrightarrow> 0 \<le> prod_list xs \<and> prod_list xs \<le> prod_list ys"
  by (induction xs ys rule: list_all2_induct) (auto intro: mult_mono)

lemma worse_candidate_prob_le:
  assumes sorted: "\<forall>alts \<in> set slots. sorted_wrt (\<ge>) (map fst alts)"
    and nonneg: "\<forall>alts \<in> set slots. \<forall>h \<in> set alts. 0 \<le> fst h"
    and adm: "admissible slots v"
    and i: "i < length v"
    and next_adm: "Suc (v ! i) < length (slots ! i)"
    and pv: "get_prob_from 1 v slots = Inr p"
  shows "admissible slots (v[i := v ! i + 1])"
    and "\<exists>q. get_prob_from 1 (v[i := v ! i + 1]) slots = Inr q \<and> q \<le> p"
proof -
  let ?w = "v[i := v ! i + 1]"
  let ?R = "\<lambda>altidx alts. altidx < length alts"
  from adm have len: "length v = length slots"
    by (simp add: admissible_def list_all2_lengthD)
  from adm have nth: "k < length v \<Longrightarrow> v ! k < length (slots ! k)" for k
    unfolding admissible_def by (rule list_all2_nthD)
  show w: "admissible slots ?w"
    unfolding admissible_def
    by (rule list_all2_all_nthI) (use len nth next_adm i in \<open>auto simp: nth_list_update\<close>)
  let ?f = "\<lambda>altidx alts. fst (alts ! altidx)"
  have "list_all2 (\<lambda>x y. 0 \<le> x \<and> x \<le> y) (map2 ?f ?w slots) (map2 ?f v slots)"
  proof (rule list_all2_all_nthI)
    show "length (map2 ?f ?w slots) = length (map2 ?f v slots)"
      by simp
  next
    fix k assume "k < length (map2 ?f ?w slots)"
    then have k: "k < length v" "k < length slots"
      by simp_all
    then have slot: "slots ! k \<in> set slots"
      by simp
    show "0 \<le> map2 ?f ?w slots ! k \<and> map2 ?f ?w slots ! k \<le> map2 ?f v slots ! k"
    proof (cases "k = i")
      case False
      from k nth [of k] have "slots ! k ! (v ! k) \<in> set (slots ! k)"
        by simp
      with nonneg slot have "0 \<le> fst (slots ! k ! (v ! k))"
        by blast
      with k False show ?thesis
        by (simp add: nth_list_update)
    next
      case True
      from sorted slot have "sorted_wrt (\<ge>) (map fst (slots ! k))"
        by simp
      from sorted_wrt_nth_less [OF this, of "v ! i" "v ! i + 1"] next_adm True
      have "fst (slots ! i ! (v ! i + 1)) \<le> fst (slots ! i ! (v ! i))"
        by simp
      moreover have "0 \<le> fst (slots ! i ! (v ! i + 1))"
        using nonneg slot next_adm True by (metis Suc_eq_plus1 nth_mem)
      ultimately show ?thesis
        using k True by simp
    qed
  qed
  from prod_list_mono_nonneg [OF this]
  have "prod_list (map2 ?f ?w slots) \<le> prod_list (map2 ?f v slots)"
    by simp
  moreover have "get_prob_from 1 ?w slots = Inr (1 * prod_list (map2 ?f ?w slots))"
    using w unfolding admissible_def by (rule get_prob_from_admissible)
  moreover have "get_prob_from 1 v slots = Inr (1 * prod_list (map2 ?f v slots))"
    using adm unfolding admissible_def by (rule get_prob_from_admissible)
  ultimately show "\<exists>q. get_prob_from 1 ?w slots = Inr q \<and> q \<le> p"
    using pv by simp
qed

lemma worse_candidates_from_ok:
  assumes sorted: "\<forall>alts \<in> set slots. sorted_wrt (\<ge>) (map fst alts)"
    and nonneg: "\<forall>alts \<in> set slots. \<forall>h \<in> set alts. 0 \<le> fst h"
    and adm: "admissible slots v"
    and pv: "get_prob_from 1 v slots = Inr p"
    and "set idxs \<subseteq> {..<length v}"
  shows "\<exists>cands. worse_candidates_from slots v idxs = Inr cands \<and>
           (\<forall>w \<in> set cands. admissible slots w \<and> (\<exists>q. get_prob_from 1 w slots = Inr q \<and> q \<le> p))"
  using assms(5)
proof (induction idxs)
  case Nil
  then show ?case by simp
next
  case (Cons i idxs)
  then have i: "i < length v" and rest: "set idxs \<subseteq> {..<length v}"
    by auto
  from adm i have il: "i < length slots"
    by (simp add: admissible_def list_all2_lengthD)
  from Cons.IH [OF rest] obtain cands where
    c: "worse_candidates_from slots v idxs = Inr cands"
    "\<forall>w \<in> set cands. admissible slots w \<and> (\<exists>q. get_prob_from 1 w slots = Inr q \<and> q \<le> p)"
    by blast
  show ?case
  proof (cases "Suc (v ! i) < length (slots ! i)")
    case True
    from worse_candidate_prob_le [OF sorted nonneg adm i True pv] c i il True
    show ?thesis
      by (auto simp: Let_def)
  next
    case False
    with c i il show ?thesis
      by (auto simp: Let_def)
  qed
qed

lemma with_probs_ok:
  assumes "\<forall>w \<in> set cands. admissible (cn self) w \<and> (\<exists>q. UCN_get_prob self w = Inr q \<and> q \<le> p)"
  shows "\<exists>new. with_probs self cands = Inr new \<and>
           (\<forall>(q, w) \<in> set new. admissible (cn self) w \<and> UCN_get_prob self w = Inr q \<and> q \<le> p)"
  using assms
proof (induction cands)
  case Nil
  then show ?case by simp
next
  case (Cons w cands)
  then obtain new where "with_probs self cands = Inr new"
    "\<forall>(q, w) \<in> set new. admissible (cn self) w \<and> UCN_get_prob self w = Inr q \<and> q \<le> p"
    by auto
  moreover from Cons.prems obtain q where "UCN_get_prob self w = Inr q" "q \<le> p" "admissible (cn self) w"
    by auto
  ultimately show ?case
    by auto
qed

lemma sorted_wrt_rev_sort_fst:
  fixes xs :: "(real \<times> nat list) list"
  shows "sorted_wrt (\<lambda>a b. fst b \<le> fst a) (rev (sort xs))"
proof -
  have "sorted_wrt (\<le>) (sort xs)"
    using sorted_sort [of xs] by simp
  then have "sorted_wrt (\<lambda>a b. fst a \<le> fst b) (sort xs)"
    by (rule sorted_wrt_mono_rel [rotated]) (auto simp: less_eq_prod_def)
  then show ?thesis
    by (simp add: sorted_wrt_rev)
qed

lemma nblist_loop_closed:
  assumes sorted: "\<forall>alts \<in> set (cn self). sorted_wrt (\<ge>) (map fst alts)"
    and nonneg: "\<forall>alts \<in> set (cn self). \<forall>h \<in> set alts. 0 \<le> fst h"
    and inv: "nblist_inv self open_hyp closed_hyp"
  shows "\<exists>closed. nblist_loop self n i open_hyp closed_hyp = Inr closed \<and>
           (\<forall>(v, p) \<in> set closed. UCN_get_prob self v = Inr p) \<and>
           sorted_wrt (\<ge>) (map snd closed) \<and> distinct (map fst closed)"
  using assms
proof (induction self n i open_hyp closed_hyp rule: nblist_loop.induct)
  case (1 self n i open_hyp closed_hyp)
  note sorted = 1(3) and nonneg = 1(4) and inv = 1(5)
  note simps = nblist_loop.simps [of self n i open_hyp closed_hyp]
  show ?case
  proof (cases "open_hyp \<noteq> [] \<and> i < n")
    case False
    then have "nblist_loop self n i open_hyp closed_hyp = Inr closed_hyp"
      by (subst simps) auto
    with inv show ?thesis
      by (simp add: nblist_inv_def)
  next
    case True
    then obtain p v popped where op: "open_hyp = (p, v) # popped"
      by (cases open_hyp) auto
    with inv have adm: "admissible (cn self) v" and pv: "UCN_get_prob self v = Inr p"
      and closed_ok: "\<forall>(v, p) \<in> set closed_hyp. UCN_get_prob self v = Inr p"
      and closed_sorted: "sorted_wrt (\<ge>) (map snd closed_hyp)"
      and closed_distinct: "distinct (map fst closed_hyp)"
      and p_le: "\<forall>(v', p') \<in> set closed_hyp. p \<le> p'"
      and popped_le: "\<forall>(q, w) \<in> set popped. q \<le> p"
      and popped_inv: "nblist_inv self popped closed_hyp"
      by (auto simp: nblist_inv_def)
    show ?thesis
    proof (cases "v \<in> fst ` set closed_hyp")
      case in_closed: True
      have h1: "(p, v) = hd open_hyp" and h3: "popped = tl open_hyp"
        using op by simp_all
      have h4: "\<not> v \<notin> fst ` set closed_hyp"
        using in_closed by simp
      from 1(2) [OF True h1 refl h3 h4 sorted nonneg popped_inv]
      have "\<exists>closed. nblist_loop self n (i + 1) popped closed_hyp = Inr closed \<and>
           (\<forall>(v, p) \<in> set closed. UCN_get_prob self v = Inr p) \<and>
           sorted_wrt (\<ge>) (map snd closed) \<and> distinct (map fst closed)" .
      moreover have "nblist_loop self n i open_hyp closed_hyp =
          nblist_loop self n (i + 1) popped closed_hyp"
        using True op in_closed by (subst simps) simp
      ultimately show ?thesis
        by simp
    next
      case not_closed: False
      have "set [0..<length v] \<subseteq> {..<length v}"
        by auto
      from worse_candidates_from_ok [OF sorted nonneg adm pv [unfolded UCN_get_prob_def] this]
      obtain cands where cands: "UCN_get_next_worse_candidates self v = Inr cands"
        and cands_ok: "\<forall>w \<in> set cands. admissible (cn self) w \<and>
                         (\<exists>q. UCN_get_prob self w = Inr q \<and> q \<le> p)"
        by (auto simp: UCN_get_next_worse_candidates_def UCN_get_prob_def)
      from with_probs_ok [OF cands_ok] obtain new where new: "with_probs self cands = Inr new"
        and new_ok: "\<forall>(q, w) \<in> set new. admissible (cn self) w \<and> UCN_get_prob self w = Inr q \<and> q \<le> p"
        by blast
      have inv': "nblist_inv self (rev (sort (popped @ new))) (closed_hyp @ [(v, p)])"
        unfolding nblist_inv_def
      proof (intro conjI)
        show "\<forall>(p, v) \<in> set (rev (sort (popped @ new))). admissible (cn self) v \<and> UCN_get_prob self v = Inr p"
          using popped_inv new_ok by (auto simp: nblist_inv_def)
        show "\<forall>(v, p) \<in> set (closed_hyp @ [(v, p)]). UCN_get_prob self v = Inr p"
          using closed_ok pv by auto
        show "sorted_wrt (\<ge>) (map snd (closed_hyp @ [(v, p)]))"
          using closed_sorted p_le by (auto simp: sorted_wrt_append)
        show "distinct (map fst (closed_hyp @ [(v, p)]))"
          using closed_distinct not_closed by simp
        show "\<forall>(pa, va) \<in> set (rev (sort (popped @ new))). \<forall>(v', p') \<in> set (closed_hyp @ [(v, p)]). pa \<le> p'"
          using popped_le new_ok p_le by fastforce
        show "sorted_wrt (\<lambda>a b. fst b \<le> fst a) (rev (sort (popped @ new)))"
          by (rule sorted_wrt_rev_sort_fst)
      qed
      have h1: "(p, v) = hd open_hyp" and h3: "popped = tl open_hyp"
        using op by simp_all
      from 1(1) [OF True h1 refl h3 not_closed cands new sorted nonneg inv']
      have "\<exists>closed. nblist_loop self n (i + 1) (rev (sort (popped @ new))) (closed_hyp @ [(v, p)]) = Inr closed \<and>
           (\<forall>(v, p) \<in> set closed. UCN_get_prob self v = Inr p) \<and>
           sorted_wrt (\<ge>) (map snd closed) \<and> distinct (map fst closed)" .
      moreover have "nblist_loop self n i open_hyp closed_hyp =
          nblist_loop self n (i + 1) (rev (sort (popped @ new))) (closed_hyp @ [(v, p)])"
        using True op not_closed cands new by (subst simps) simp
      ultimately show ?thesis
        by simp
    qed
  qed
qed


lemma get_prob_from_Inr_admissible:
  "get_prob_from acc v slots = Inr p \<Longrightarrow> length v = length slots \<Longrightarrow>
   list_all2 (\<lambda>altidx alts. altidx < length alts) v slots"
proof (induction acc v slots rule: get_prob_from.induct)
  case (1 acc altidx hyp_index alts rest)
  then show ?case by (auto split: if_splits)
qed auto

lemma get_prob_from_best:
  "\<forall>alts \<in> set slots. alts \<noteq> [] \<Longrightarrow> \<exists>p. get_prob_from acc (replicate (length slots) 0) slots = Inr p"
  by (induction slots arbitrary: acc) auto

lemma cn_sorted_UCN_sort: "cn_sorted (UCN_sort self)"
proof -
  have "sorted_wrt (\<ge>) (map fst (rev (sort alts)))" for alts :: "hyp list"
  proof -
    have "sorted_wrt (\<le>) (sort alts)"
      using sorted_sort [of alts] by simp
    then have "sorted_wrt (\<lambda>a b. fst a \<le> fst b) (sort alts)"
      by (rule sorted_wrt_mono_rel [rotated]) (auto simp: less_eq_prod_def)
    then show ?thesis
      by (simp add: sorted_wrt_rev sorted_wrt_map rev_map [symmetric])
  qed
  then show ?thesis
    by (auto simp: cn_sorted_def UCN_sort_def)
qed

lemma nblist_closed_sorted:
  assumes "cn_sorted self" and "cn_nonneg self"
    and best: "UCN_get_prob self (replicate (length (cn self)) 0) = Inr best_prob"
  shows "\<exists>closed. UCN_get_utterance_nblist_closed self n = Inr closed \<and>
           (\<forall>(v, p) \<in> set closed. UCN_get_prob self v = Inr p) \<and>
           sorted_wrt (\<ge>) (map snd closed) \<and> distinct (map fst closed)"
proof -
  let ?best = "replicate (length (cn self)) 0"
  have "admissible (cn self) ?best"
    unfolding admissible_def
    using best by (intro get_prob_from_Inr_admissible [of 1 _ _ best_prob]) (simp_all add: UCN_get_prob_def)
  with best have "nblist_inv self [(best_prob, ?best)] []"
    by (simp add: nblist_inv_def)
  from nblist_loop_closed [OF assms(1,2) [unfolded cn_sorted_def cn_nonneg_def] this, of n 0] best
  show ?thesis
    by (simp add: UCN_get_utterance_nblist_closed_def Let_def)
qed

text \<open>
  Claim C3 says that no vector \<open>B\<close> is closed before a vector \<open>A\<close> whenever the
  probability of \<open>A\<close> is greater than or equal to that of \<open>B\<close>.  With the single sorted slot
  \<open>[(0.5, a), (0.5, b)]\<close> the vector \<open>[0]\<close> is closed before \<open>[1]\<close>, and the probability
  of \<open>[1]\<close> is equal to (so greater than or equal to) that of \<open>[0]\<close>: of two vectors with
  the same probability one is necessarily closed first.
\<close>

theorem nblist_closing_order_counterexample:
  "cn_sorted \<lparr>abstr_idxs = [], cn = [[(0.5, ''a''), (0.5, ''b'')]],
              cn_wordset = {''a'', ''b''}, long_links = [[]]\<rparr>
   \<and> UCN_get_utterance_nblist_closed
        \<lparr>abstr_idxs = [], cn = [[(0.5, ''a''), (0.5, ''b'')]],
         cn_wordset = {''a'', ''b''}, long_links = [[]]\<rparr> 10
       = Inr [([0], 0.5), ([1], 0.5)]
   \<and> UCN_get_prob \<lparr>abstr_idxs = [], cn = [[(0.5, ''a''), (0.5, ''b'')]],
                     cn_wordset = {''a'', ''b''}, long_links = [[]]\<rparr> [1] = Inr 0.5
   \<and> UCN_get_prob \<lparr>abstr_idxs = [], cn = [[(0.5, ''a''), (0.5, ''b'')]],
                     cn_wordset = {''a'', ''b''}, long_links = [[]]\<rparr> [0] = Inr 0.5
   \<and> (0.5 :: real) \<ge> 0.5"
  by (simp add: cn_sorted_def UCN_get_utterance_nblist_closed_def UCN_get_prob_def
      nblist_loop.simps UCN_get_next_worse_candidates_def Let_def upt_rec less_eq_prod_def)

text \<open>
  Claim C3, amended.  On a confusion network whose slots hold alternatives of
  non-negative probability in non-increasing order, the search of
  \<^verbatim>\<open>get_utterance_nblist(n)\<close> closes vectors in non-increasing order of probability: if
  \<open>B\<close> is closed before \<open>A\<close> then the probability of \<open>A\<close> (as \<^verbatim>\<open>get_prob\<close> computes it)
  is not strictly greater than that of \<open>B\<close>, and \<open>A\<close> and \<open>B\<close> differ.  The recorded
  probabilities are those of \<^verbatim>\<open>get_prob\<close>.  When no slot is empty the search returns.
\<close>

theorem nblist_closing_order:
  assumes "cn_sorted self" and "cn_nonneg self"
  shows "(\<forall>closed i j. UCN_get_utterance_nblist_closed self n = Inr closed \<and> i < j \<and> j < length closed \<longrightarrow>
            (\<exists>pa pb. UCN_get_prob self (fst (closed ! j)) = Inr pa \<and> snd (closed ! j) = pa \<and>
                     UCN_get_prob self (fst (closed ! i)) = Inr pb \<and> snd (closed ! i) = pb \<and>
                     \<not> pa > pb \<and> fst (closed ! i) \<noteq> fst (closed ! j)))
         \<and> ((\<forall>alts \<in> set (cn self). alts \<noteq> []) \<longrightarrow>
              (\<exists>closed. UCN_get_utterance_nblist_closed self n = Inr closed))"
proof (intro conjI allI impI)
  fix closed i j
  assume a: "UCN_get_utterance_nblist_closed self n = Inr closed \<and> i < j \<and> j < length closed"
  then obtain best_prob where best: "UCN_get_prob self (replicate (length (cn self)) 0) = Inr best_prob"
    by (auto simp: UCN_get_utterance_nblist_closed_def Let_def split: sum.splits)
  from nblist_closed_sorted [OF assms best, of n] a
  have ok: "\<forall>(v, p) \<in> set closed. UCN_get_prob self v = Inr p"
    and srt: "sorted_wrt (\<ge>) (map snd closed)" and dist: "distinct (map fst closed)"
    by auto
  from a have ij: "i < j" "j < length closed" "i < length closed"
    by auto
  from ok ij have "UCN_get_prob self (fst (closed ! j)) = Inr (snd (closed ! j))"
    "UCN_get_prob self (fst (closed ! i)) = Inr (snd (closed ! i))"
    by (metis (mono_tags, lifting) case_prod_beta nth_mem)+
  moreover from sorted_wrt_nth_less [OF srt, of i j] ij have "snd (closed ! j) \<le> snd (closed ! i)"
    by simp
  moreover from dist ij have "fst (closed ! i) \<noteq> fst (closed ! j)"
    by (simp add: distinct_conv_nth)
  ultimately show "\<exists>pa pb. UCN_get_prob self (fst (closed ! j)) = Inr pa \<and> snd (closed ! j) = pa \<and>
                     UCN_get_prob self (fst (closed ! i)) = Inr pb \<and> snd (closed ! i) = pb \<and>
                     \<not> pa > pb \<and> fst (closed ! i) \<noteq> fst (closed ! j)"
    by simp
next
  assume "\<forall>alts \<in> set (cn self). alts \<noteq> []"
  from get_prob_from_best [OF this, of 1] obtain p where
    "UCN_get_prob self (replicate (length (cn self)) 0) = Inr p"
    by (auto simp: UCN_get_prob_def)
  from nblist_closed_sorted [OF assms this, of n]
  show "\<exists>closed. UCN_get_utterance_nblist_closed self n = Inr closed"
    by blast
qed

text \<open>
  The theorem on the lattice with the slots \<open>[(0.6, a), (0.4, b)]\<close> and
  \<open>[(0.7, x), (0.3, y)]\<close> and \<open>n = 4\<close>: the vectors are closed in the order
  \<open>[0, 0]\<close>, \<open>[1, 0]\<close>, \<open>[0, 1]\<close>, \<open>[1, 1]\<close>, with probabilities 0.42, 0.28, 0.18, 0.12.
\<close>

theorem nblist_closing_order_witness:
  "cn_sorted \<lparr>abstr_idxs = [], cn = [[(0.6, ''a''), (0.4, ''b'')], [(0.7, ''x''), (0.3, ''y'')]],
              cn_wordset = {''a'', ''b'', ''x'', ''y''}, long_links = [[], []]\<rparr>
   \<and> cn_nonneg \<lparr>abstr_idxs = [], cn = [[(0.6, ''a''), (0.4, ''b'')], [(0.7, ''x''), (0.3, ''y'')]],
              cn_wordset = {''a'', ''b'', ''x'', ''y''}, long_links = [[], []]\<rparr>
   \<and> UCN_get_utterance_nblist_closed
        \<lparr>abstr_idxs = [], cn = [[(0.6, ''a''), (0.4, ''b'')], [(0.7, ''x''), (0.3, ''y'')]],
         cn_wordset = {''a'', ''b'', ''x'', ''y''}, long_links = [[], []]\<rparr> 4
       = Inr [([0, 0], 0.42), ([1, 0], 0.28), ([0, 1], 0.18), ([1, 1], 0.12)]
   \<and> UCN_get_prob
        \<lparr>abstr_idxs = [], cn = [[(0.6, ''a''), (0.4, ''b'')], [(0.7, ''x''), (0.3, ''y'')]],
         cn_wordset = {''a'', ''b'', ''x'', ''y''}, long_links = [[], []]\<rparr> [0, 1] = Inr 0.18
   \<and> UCN_get_prob
        \<lparr>abstr_idxs = [], cn = [[(0.6, ''a''), (0.4, ''b'')], [(0.7, ''x''), (0.3, ''y'')]],
         cn_wordset = {''a'', ''b'', ''x'', ''y''}, long_links = [[], []]\<rparr> [1, 0] = Inr 0.28"
proof -
  let ?c = "\<lparr>abstr_idxs = [], cn = [[(0.6, ''a''), (0.4, ''b'')], [(0.7, ''x''), (0.3, ''y'')]],
              cn_wordset = {''a'', ''b'', ''x'', ''y''}, long_links = [[], []]\<rparr>"
  let ?closed = "[([0, 0], 0.42), ([1, 0], 0.28), ([0, 1], 0.18), ([1 :: nat, 1 :: nat], 0.12 :: real)]"
  have s: "cn_sorted ?c"
    by (simp add: cn_sorted_def)
  have n: "cn_nonneg ?c"
    by (simp add: cn_nonneg_def)
  have run: "UCN_get_utterance_nblist_closed ?c 4 = Inr ?closed"
    by (simp add: UCN_get_utterance_nblist_closed_def UCN_get_prob_def nblist_loop.simps
        UCN_get_next_worse_candidates_def Let_def upt_rec less_eq_prod_def)
  have lt: "1 < (2 :: nat)" and len: "2 < length ?closed"
    by simp_all
  from nblist_closing_order [OF s n, of 4]
  have "UCN_get_utterance_nblist_closed ?c 4 = Inr ?closed \<and> 1 < (2 :: nat) \<and> 2 < length ?closed \<longrightarrow>
     (\<exists>pa pb. UCN_get_prob ?c (fst (?closed ! 2)) = Inr pa \<and> snd (?closed ! 2) = pa \<and>
        UCN_get_prob ?c (fst (?closed ! 1)) = Inr pb \<and> snd (?closed ! 1) = pb \<and>
        \<not> pa > pb \<and> fst (?closed ! 1) \<noteq> fst (?closed ! 2))"
    by blast
  with run lt len obtain pa pb where
    "UCN_get_prob ?c (fst (?closed ! 2)) = Inr pa" "snd (?closed ! 2) = pa"
    "UCN_get_prob ?c (fst (?closed ! 1)) = Inr pb" "snd (?closed ! 1) = pb"
    by blast
  then have "UCN_get_prob ?c (fst (?closed ! 2)) = Inr (snd (?closed ! 2))"
    and "UCN_get_prob ?c (fst (?closed ! 1)) = Inr (snd (?closed ! 1))"
    by simp_all
  moreover have "fst (?closed ! 2) = [0, 1]" "snd (?closed ! 2) = 0.18"
    "fst (?closed ! 1) = [1, 0]" "snd (?closed ! 1) = 0.28"
    by simp_all
  ultimately have "UCN_get_prob ?c [0, 1] = Inr 0.18" "UCN_get_prob ?c [1, 0] = Inr 0.28"
    by (simp_all only:)
  with s n run show ?thesis
    by blast
qed

subsection \<open>Phrase search in a confusion network\<close>

lemma scan_links_total:
  assumes rec: "\<And>phrase' start'. length phrase' < length phrase \<Longrightarrow> \<exists>r. rec phrase' start' = Inr r"
    and "\<forall>l_link \<in> set links. snd (link_hyp (snd l_link)) \<noteq> []"
  shows "\<exists>r. scan_links rec phrase end_idx start_idx l_idx links = Inr r"
  using assms(2)
proof (induction links arbitrary: l_idx)
  case Nil
  then show ?case by simp
next
  case (Cons l_link links)
  let ?l_len = "length (snd (link_hyp (snd l_link)))"
  from Cons.prems have pos: "0 < ?l_len" by simp
  from Cons have IH: "\<exists>r. scan_links rec phrase end_idx start_idx l' links = Inr r" for l'
    by simp
  show ?case
  proof (cases "?l_len < length phrase")
    case True
    with pos have "length phrase - ?l_len < length phrase" by arith
    then have "length (drop ?l_len phrase) < length phrase" by simp
    from rec [OF this] obtain sub where "rec (drop ?l_len phrase) (link_end (snd l_link)) = Inr sub"
      by blast
    with True IH show ?thesis
      by (auto simp: Let_def)
  next
    case False
    with IH show ?thesis
      by (auto simp: Let_def)
  qed
qed

lemma scan_links_l_idx:
  "scan_links rec phrase end_idx start_idx l_idx links = Inr (NotFound None) \<Longrightarrow> links = []"
proof (induction links arbitrary: l_idx)
  case Nil
  then show ?case by simp
next
  case (Cons l_link links)
  from Cons.prems have "scan_links rec phrase end_idx start_idx (Some (fst l_link)) links = Inr (NotFound None)"
    by (auto simp: Let_def split: if_splits sum.splits)
  then have "links = []"
    by (rule Cons.IH)
  with \<open>scan_links rec phrase end_idx start_idx (Some (fst l_link)) links = Inr (NotFound None)\<close>
  show ?case by simp
qed

lemma scan_links_l_idx_Some:
  "scan_links rec phrase end_idx start_idx (Some l) links = Inr (NotFound l') \<Longrightarrow> l' \<noteq> None"
  by (induction links arbitrary: l) (auto simp: Let_def split: if_splits sum.splits)

lemma scan_starts_total:
  assumes rec: "\<And>phrase' start'. length phrase' < length phrase \<Longrightarrow> \<exists>r. rec phrase' start' = Inr r"
    and wf: "ucn_wf self" and ne: "phrase \<noteq> []"
    and "\<forall>s \<in> set starts. s < length (cn self)"
  shows "\<exists>r. scan_starts rec self phrase end_idx l_idx starts = Inr r"
  using assms(4)
proof (induction starts arbitrary: l_idx)
  case Nil
  then show ?case by simp
next
  case (Cons s starts)
  then have s: "s < length (cn self)" and IH: "\<exists>r. scan_starts rec self phrase end_idx l' starts = Inr r" for l'
    by simp_all
  from wf s have sl: "s < length (long_links self)"
    by (simp add: ucn_wf_def)
  then have "long_links self ! s \<in> set (long_links self)"
    by simp
  with wf have "\<forall>l_link \<in> set (enumerate 0 (long_links self ! s)). snd (link_hyp (snd l_link)) \<noteq> []"
    by (auto simp: ucn_wf_def in_set_enumerate_eq)
  from scan_links_total [where rec = rec and phrase = phrase, OF rec this] obtain r where
    links: "scan_links rec phrase end_idx s l_idx (enumerate 0 (long_links self ! s)) = Inr r"
    by blast
  from ne have "length (tl phrase) < length phrase"
    by (cases phrase) auto
  from rec [OF this] obtain sub where sub: "rec (tl phrase) (s + 1) = Inr sub"
    by blast
  from s sl links sub IH show ?case
    by (cases r) (auto simp: Let_def)
qed

lemma scan_starts_l_idx:
  "scan_starts rec self phrase end_idx l_idx starts = Inr (NotFound None) \<Longrightarrow>
   \<forall>s \<in> set starts. long_links self ! s = []"
proof (induction starts arbitrary: l_idx)
  case Nil
  then show ?case by simp
next
  case (Cons s starts)
  from Cons.prems obtain l' where
    links: "scan_links rec phrase end_idx s l_idx (enumerate 0 (long_links self ! s)) = Inr (NotFound l')"
    and rest: "scan_starts rec self phrase end_idx l' starts = Inr (NotFound None)"
    by (auto simp: Let_def split: if_splits sum.splits option.splits scan_result.splits)
  have l': "l' = None"
  proof (rule ccontr)
    assume "l' \<noteq> None"
    then obtain l where "l' = Some l" by auto
    with rest have "scan_starts rec self phrase end_idx (Some l) starts = Inr (NotFound None)"
      by simp
    moreover have "scan_starts rec self phrase end_idx (Some l) starts \<noteq> Inr (NotFound None)" for l
    proof (induction starts arbitrary: l)
      case Nil
      then show ?case by simp
    next
      case (Cons s starts)
      show ?case
      proof
        assume "scan_starts rec self phrase end_idx (Some l) (s # starts) = Inr (NotFound None)"
        then obtain l'' where
          a: "scan_links rec phrase end_idx s (Some l) (enumerate 0 (long_links self ! s)) = Inr (NotFound l'')"
          and b: "scan_starts rec self phrase end_idx l'' starts = Inr (NotFound None)"
          by (auto simp: Let_def split: if_splits sum.splits option.splits scan_result.splits)
        from scan_links_l_idx_Some [OF a] obtain m where "l'' = Some m" by auto
        with b Cons.IH show False by simp
      qed
    qed
    ultimately show False by simp
  qed
  with links have "enumerate 0 (long_links self ! s) = []"
    using scan_links_l_idx by blast
  then have "long_links self ! s = []"
    by (metis length_enumerate length_0_conv)
  moreover from rest l' have "\<forall>s \<in> set starts. long_links self ! s = []"
    using Cons.IH by blast
  ultimately show ?case by simp
qed

lemma py_slice_nat:
  "py_slice xs (Some (int a)) (Some (int b)) = take (b - a) (drop a xs)"
proof (cases "a \<le> length xs")
  case True
  then show ?thesis
    by (simp add: py_slice_def slice_bound_def min_def)
next
  case False
  then show ?thesis
    by (simp add: py_slice_def slice_bound_def min_def)
qed

lemma midlink_starts_empty:
  assumes "\<forall>s \<in> {start..<end_idx}. long_links self ! s = []"
  shows "midlink_starts self start end_idx = []"
proof -
  have "links = []" if "links \<in> set (take (end_idx - start) (drop start (long_links self)))" for links
  proof -
    from that obtain k where k: "k < length (take (end_idx - start) (drop start (long_links self)))"
      and eq: "links = take (end_idx - start) (drop start (long_links self)) ! k"
      by (auto simp: in_set_conv_nth)
    then have "links = long_links self ! (start + k)" and "start + k < end_idx"
      by auto
    with assms show ?thesis by simp
  qed
  have "snd x = []"
    if "x \<in> set (enumerate start (take (end_idx - start) (drop start (long_links self))))" for x
  proof -
    let ?xs = "take (end_idx - start) (drop start (long_links self))"
    from that have "fst x - start < length ?xs" and "snd x = ?xs ! (fst x - start)"
      unfolding in_set_enumerate_eq by auto
    then have "snd x \<in> set ?xs"
      by (metis nth_mem)
    then show ?thesis
      by (rule \<open>\<And>links. links \<in> set ?xs \<Longrightarrow> links = []\<close>)
  qed
  then have "\<forall>x \<in> set (enumerate start (take (end_idx - start) (drop start (long_links self)))). snd x = []"
    by blast
  then show ?thesis
    by (auto simp: midlink_starts_def py_slice_nat Let_def split: prod.splits)
qed

lemma scan_midlinks_total:
  assumes rec: "\<And>phrase' start'. length phrase' < length phrase \<Longrightarrow> \<exists>r. rec phrase' start' = Inr r"
    and "phrase \<noteq> []"
    and "\<forall>x \<in> set starts. 1 \<le> snd (snd x) \<and> snd (snd x) < length (snd (link_hyp (fst (snd x))))"
    and "starts \<noteq> [] \<longrightarrow> l_idx \<noteq> None"
  shows "\<exists>r. scan_midlinks rec phrase l_idx starts = Inr r"
  using assms(3,4)
proof (induction starts)
  case Nil
  then show ?case by simp
next
  case (Cons x starts)
  let ?suffix = "drop (snd (snd x)) (snd (link_hyp (fst (snd x))))"
  from Cons.prems obtain l where l: "l_idx = Some l" by auto
  from Cons have IH: "\<exists>r. scan_midlinks rec phrase l_idx starts = Inr r"
    by (cases starts) auto
  show ?case
  proof (cases "?suffix = take (length ?suffix) phrase")
    case True
    from Cons.prems have "0 < length ?suffix" by simp
    moreover from \<open>phrase \<noteq> []\<close> have "0 < length phrase" by simp
    ultimately have "length phrase - length ?suffix < length phrase" by arith
    then have "length (drop (length ?suffix) phrase) < length phrase"
      by (simp only: length_drop)
    from rec [OF this] obtain sub where "rec (drop (length ?suffix) phrase) (link_end (fst (snd x))) = Inr sub"
      by blast
    with True IH l show ?thesis
      by (auto simp: Let_def)
  next
    case False
    with IH show ?thesis
      by (simp add: Let_def)
  qed
qed

lemma midlink_starts_range:
  "\<forall>x \<in> set (midlink_starts self start end_idx).
     1 \<le> snd (snd x) \<and> snd (snd x) < length (snd (link_hyp (fst (snd x))))"
  by (auto simp: midlink_starts_def Let_def)

lemma get_phrase_idxs_body_total:
  assumes rec: "\<And>phrase' start' e. length phrase' < length phrase \<Longrightarrow> e \<le> length (cn self) \<Longrightarrow>
                  \<exists>r. rec phrase' start' e = Inr r"
    and wf: "ucn_wf self"
    and e: "(case end_arg of None \<Rightarrow> True | Some e \<Rightarrow> e \<le> length (cn self))"
  shows "\<exists>r. get_phrase_idxs_body rec self phrase start end_arg start_in_midlinks = Inr r"
proof (cases "phrase = []")
  case True
  then show ?thesis by (simp add: get_phrase_idxs_body_def)
next
  case ne: False
  define end_idx where "end_idx = (case end_arg of None \<Rightarrow> length (cn self) | Some e \<Rightarrow> e)"
  from e have le: "end_idx \<le> length (cn self)"
    by (auto simp: end_idx_def split: option.splits)
  let ?rec = "\<lambda>phrase' start'. rec phrase' start' end_idx"
  have rec': "\<exists>r. ?rec phrase' start' = Inr r" if "length phrase' < length phrase" for phrase' start'
    using rec [OF that le] by blast
  have "\<forall>s \<in> set [start..<end_idx]. s < length (cn self)"
    using le by auto
  from scan_starts_total [of phrase ?rec, OF rec' wf ne this] obtain r where
    r: "scan_starts ?rec self phrase end_idx None [start..<end_idx] = Inr r"
    by blast
  show ?thesis
  proof (cases r)
    case (Found idxs)
    with r ne show ?thesis
      by (auto simp: get_phrase_idxs_body_def end_idx_def [symmetric])
  next
    case (NotFound l_idx)
    have "midlink_starts self start end_idx \<noteq> [] \<longrightarrow> l_idx \<noteq> None"
    proof (cases l_idx)
      case None
      with r NotFound have "\<forall>s \<in> set [start..<end_idx]. long_links self ! s = []"
        using scan_starts_l_idx by blast
      then have "midlink_starts self start end_idx = []"
        by (intro midlink_starts_empty) simp
      then show ?thesis by simp
    next
      case (Some l)
      then show ?thesis by simp
    qed
    from scan_midlinks_total [of phrase ?rec, OF rec' ne midlink_starts_range this]
    obtain r' where "scan_midlinks ?rec phrase l_idx (midlink_starts self start end_idx) = Inr r'"
      by blast
    with r NotFound ne show ?thesis
      by (auto simp: get_phrase_idxs_body_def end_idx_def [symmetric])
  qed
qed

lemma UCN_get_phrase_idxs_total:
  assumes wf: "ucn_wf self"
  shows "length phrase \<le> depth \<Longrightarrow> (case end_arg of None \<Rightarrow> True | Some e \<Rightarrow> e \<le> length (cn self)) \<Longrightarrow>
         \<exists>r. UCN_get_phrase_idxs depth self phrase start end_arg start_in_midlinks = Inr r"
proof (induction depth arbitrary: phrase start end_arg start_in_midlinks)
  case 0
  then show ?case
    by (simp add: get_phrase_idxs_body_def)
next
  case (Suc depth)
  show ?case
    unfolding UCN_get_phrase_idxs.simps
  proof (rule get_phrase_idxs_body_total [OF _ wf Suc.prems(2)])
    fix phrase' :: "string list" and start' e :: nat
    assume "length phrase' < length phrase" and e: "e \<le> length (cn self)"
    with Suc.prems have "length phrase' \<le> depth" by simp
    moreover from e have "case Some e of None \<Rightarrow> True | Some e \<Rightarrow> e \<le> length (cn self)"
      by simp
    ultimately show "\<exists>r. UCN_get_phrase_idxs depth self phrase' start' (Some e) False = Inr r"
      by (rule Suc.IH)
  qed
qed


lemma UCN_get_phrase_idxs_Nil:
  "UCN_get_phrase_idxs depth self [] start end_arg start_in_midlinks = Inr [(int start, 0, 0)]"
  by (cases depth) (simp_all add: get_phrase_idxs_body_def)

text \<open>
  Claim C6 says that \<^verbatim>\<open>get_phrase_idxs\<close> returns an empty result when the phrase is the
  empty list.  The code returns the one-element list \<^verbatim>\<open>[(start, 0, 0)]\<close> then, here on
  the confusion network with the single slot \<open>[(1, a)]\<close> and \<open>start = 0\<close>.
\<close>

theorem UCN_get_phrase_idxs_empty_phrase_counterexample:
  "UCN_get_phrase_idxs 1000
     \<lparr>abstr_idxs = [], cn = [[(1, ''a'')]], cn_wordset = {''a''}, long_links = [[]]\<rparr>
     [] 0 None True = Inr [(0, 0, 0)]"
  by (simp add: UCN_get_phrase_idxs_Nil)

text \<open>
  Claim C6, amended.  For a non-empty phrase, \<^verbatim>\<open>get_phrase_idxs(phrase, start, end)\<close>
  returns the empty list when \<open>end \<le> start\<close> (with \<open>end\<close> the number of slots when it is
  not given) or when some word of the phrase is not in the word set of the confusion
  network; for the empty phrase it returns \<^verbatim>\<open>[(start, 0, 0)]\<close>, which the recursive
  calls of the search rely on.  And \<^verbatim>\<open>Utterance.find(p)\<close> returns \<open>-1\<close> for every
  non-empty \<open>p\<close> that contains a word outside the word set of the utterance.
\<close>

theorem get_phrase_idxs_fast_reject:
  "(phrase \<noteq> [] \<and>
      ((case end_arg of None \<Rightarrow> length (cn self) | Some e \<Rightarrow> e) \<le> start
       \<or> (\<exists>word \<in> set phrase. word \<notin> cn_wordset self)) \<longrightarrow>
      UCN_get_phrase_idxs depth self phrase start end_arg start_in_midlinks = Inr [])
   \<and> UCN_get_phrase_idxs depth self [] start end_arg start_in_midlinks = Inr [(int start, 0, 0)]
   \<and> (p \<noteq> [] \<and> (\<exists>word \<in> set p. word \<notin> wordset u) \<longrightarrow> Utterance_find u p = Inr (- 1))"
  by (cases depth) (auto simp: get_phrase_idxs_body_def Utterance_find_def Let_def)

theorem get_phrase_idxs_fast_reject_witness:
  "UCN_get_phrase_idxs 1000
     \<lparr>abstr_idxs = [], cn = [[(0.6, ''i''), (0.4, ''a'')], [(1, ''want'')]],
       cn_wordset = {''i'', ''a'', ''want''}, long_links = [[], []]\<rparr>
     [''i'', ''wish''] 0 None True = Inr []
   \<and> UCN_get_phrase_idxs 1000
     \<lparr>abstr_idxs = [], cn = [[(0.6, ''i''), (0.4, ''a'')], [(1, ''want'')]],
       cn_wordset = {''i'', ''a'', ''want''}, long_links = [[], []]\<rparr>
     [''i'', ''want''] 2 (Some 2) True = Inr []
   \<and> Utterance_find (Utterance_init ''book a table for two'') [''table'', ''three''] = Inr (- 1)"
proof -
  let ?c = "\<lparr>abstr_idxs = [], cn = [[(0.6, ''i''), (0.4, ''a'')], [(1, ''want'')]],
       cn_wordset = {''i'', ''a'', ''want''}, long_links = [[], []]\<rparr>"
  let ?u = "Utterance_init ''book a table for two''"
  have 1: "[''i'', ''wish''] \<noteq> [] \<and>
      ((case None of None \<Rightarrow> length (cn ?c) | Some e \<Rightarrow> e) \<le> 0
       \<or> (\<exists>word \<in> set [''i'', ''wish'']. word \<notin> cn_wordset ?c))"
    by simp
  have 2: "[''i'', ''want''] \<noteq> [] \<and>
      ((case Some 2 of None \<Rightarrow> length (cn ?c) | Some e \<Rightarrow> e) \<le> (2 :: nat)
       \<or> (\<exists>word \<in> set [''i'', ''want'']. word \<notin> cn_wordset ?c))"
    by simp
  have 3: "[''table'', ''three''] \<noteq> [] \<and> (\<exists>word \<in> set [''table'', ''three'']. word \<notin> wordset ?u)"
    by (simp add: Utterance_init_def str_split_def is_space_def)
  from 1 get_phrase_idxs_fast_reject
           [where phrase = "[''i'', ''wish'']" and end_arg = None and self = ?c and start = 0
              and depth = 1000 and start_in_midlinks = True]
  have a: "UCN_get_phrase_idxs 1000 ?c [''i'', ''wish''] 0 None True = Inr []"
    by blast
  from 2 get_phrase_idxs_fast_reject
           [where phrase = "[''i'', ''want'']" and end_arg = "Some 2" and self = ?c and start = 2
              and depth = 1000 and start_in_midlinks = True]
  have b: "UCN_get_phrase_idxs 1000 ?c [''i'', ''want''] 2 (Some 2) True = Inr []"
    by blast
  from 3 get_phrase_idxs_fast_reject [where p = "[''table'', ''three'']" and u = ?u]
  have c: "Utterance_find ?u [''table'', ''three''] = Inr (- 1)"
    by blast
  from a b c show ?thesis
    by blast
qed

subsection \<open>index and find\<close>

text \<open>The phrase search raises no \<open>ValueError\<close>.\<close>

lemma scan_links_no_ValueError:
  assumes "\<And>phrase' start'. rec phrase' start' \<noteq> Inl ValueError"
  shows "scan_links rec phrase end_idx start_idx l_idx links \<noteq> Inl ValueError"
  using assms
  by (induction links arbitrary: l_idx) (auto simp: Let_def split: sum.splits)

lemma scan_starts_no_ValueError:
  assumes "\<And>phrase' start'. rec phrase' start' \<noteq> Inl ValueError"
  shows "scan_starts rec self phrase end_idx l_idx starts \<noteq> Inl ValueError"
proof (induction starts arbitrary: l_idx)
  case Nil
  show ?case by simp
next
  case (Cons s starts)
  have "scan_links rec phrase end_idx s l_idx (enumerate 0 (long_links self ! s)) \<noteq> Inl ValueError"
    using assms by (rule scan_links_no_ValueError)
  with Cons assms [of "tl phrase" "s + 1"] show ?case
    by (auto simp: Let_def split: sum.splits option.splits scan_result.splits)
qed

lemma scan_midlinks_no_ValueError:
  assumes "\<And>phrase' start'. rec phrase' start' \<noteq> Inl ValueError"
  shows "scan_midlinks rec phrase l_idx starts \<noteq> Inl ValueError"
  using assms
  by (induction starts) (auto simp: Let_def split: sum.splits option.splits)

lemma get_phrase_idxs_body_no_ValueError:
  assumes "\<And>phrase' start' e. rec phrase' start' e \<noteq> Inl ValueError"
  shows "get_phrase_idxs_body rec self phrase start end_arg start_in_midlinks \<noteq> Inl ValueError"
proof -
  define end_idx where "end_idx = (case end_arg of None \<Rightarrow> length (cn self) | Some e \<Rightarrow> e)"
  let ?rec = "\<lambda>phrase' start'. rec phrase' start' end_idx"
  have "scan_starts ?rec self phrase end_idx None [start..<end_idx] \<noteq> Inl ValueError"
    by (rule scan_starts_no_ValueError) (rule assms)
  moreover have "scan_midlinks ?rec phrase l (midlink_starts self start end_idx) \<noteq> Inl ValueError" for l
    by (rule scan_midlinks_no_ValueError) (rule assms)
  ultimately show ?thesis
    by (auto simp: get_phrase_idxs_body_def end_idx_def [symmetric] split: sum.splits scan_result.splits)
qed

lemma UCN_get_phrase_idxs_no_ValueError:
  "UCN_get_phrase_idxs depth self phrase start end_arg start_in_midlinks \<noteq> Inl ValueError"
proof (induction depth arbitrary: phrase start end_arg start_in_midlinks)
  case 0
  show ?case
    unfolding UCN_get_phrase_idxs.simps by (rule get_phrase_idxs_body_no_ValueError) simp
next
  case (Suc depth)
  show ?case
    unfolding UCN_get_phrase_idxs.simps by (rule get_phrase_idxs_body_no_ValueError) (rule Suc)
qed

lemma Utterance_find_returns:
  assumes "p \<noteq> []"
  shows "\<exists>i. Utterance_find u p = Inr i"
  using assms find_loop_correct [of p _ "utterance u" 0]
  by (auto simp: Utterance_find_def)

text \<open>
  For a non-empty phrase, \<^verbatim>\<open>Utterance.index\<close> raises \<open>ValueError\<close> exactly when
  \<^verbatim>\<open>Utterance.find\<close> returns \<open>-1\<close>, and returns the index that \<^verbatim>\<open>find\<close> returns otherwise;
  \<^verbatim>\<open>find\<close> itself always returns an integer.
\<close>

lemma Utterance_index_find:
  assumes "p \<noteq> []"
  shows "(Utterance_index u p = Inl ValueError \<longleftrightarrow> Utterance_find u p = Inr (- 1))
       \<and> (\<forall>i. Utterance_find u p = Inr i \<and> i \<noteq> - 1 \<longrightarrow> Utterance_index u p = Inr i)
       \<and> (\<exists>i. Utterance_find u p = Inr i)"
proof -
  from Utterance_find_returns [OF assms] obtain i where i: "Utterance_find u p = Inr i"
    by blast
  then show ?thesis
    by (simp add: Utterance_index_def)
qed

text \<open>
  \<^verbatim>\<open>index\<close> of a confusion network is related in this way to the search of the whole
  network, \<^verbatim>\<open>find(phrase)\<close>, whatever \<^verbatim>\<open>start\<close> and \<^verbatim>\<open>end\<close> it is given.
\<close>

lemma UCN_index_whole_network:
  "(UCN_index depth self p start end_arg = Inl ValueError
      \<longleftrightarrow> UCN_find depth self p 0 None = Inr (- 1))
   \<and> (\<forall>i. UCN_find depth self p 0 None = Inr i \<and> i \<noteq> - 1
         \<longrightarrow> UCN_index depth self p start end_arg = Inr i)"
  using UCN_get_phrase_idxs_no_ValueError [of depth self p 0 None True]
  by (auto simp: UCN_index_def UCN_find_def split: sum.splits)

text \<open>
  On a well-formed confusion network, with room for one nested call per word of the
  phrase and with \<^verbatim>\<open>end\<close> not beyond the last slot, \<^verbatim>\<open>find\<close> returns an integer, which is
  \<open>-1\<close> exactly when \<^verbatim>\<open>get_phrase_idxs\<close> finds nothing.  With \<^verbatim>\<open>end\<close> beyond the last slot the
  search reads \<^verbatim>\<open>self._long_links\<close> out of range.
\<close>

lemma UCN_find_returns:
  assumes "ucn_wf self" and "length p \<le> depth"
    and "case end_arg of None \<Rightarrow> True | Some e \<Rightarrow> e \<le> length (cn self)"
  shows "\<exists>i. UCN_find depth self p start end_arg = Inr i \<and>
           (i = - 1 \<longleftrightarrow> UCN_get_phrase_idxs depth self p start end_arg True = Inr [])"
proof -
  from UCN_get_phrase_idxs_total [OF assms]
  obtain r where "UCN_get_phrase_idxs depth self p start end_arg True = Inr r"
    by blast
  then show ?thesis
    by (auto simp: UCN_find_def)
qed

lemma UCN_find_end_beyond_last_slot:
  "UCN_find 4 \<lparr>abstr_idxs = [], cn = [[(0.6, ''i''), (0.4, ''a'')], [(1, ''want'')]],
                  cn_wordset = {''i'', ''a'', ''want''}, long_links = [[], []]\<rparr>
      [''want'', ''i''] 0 (Some 3) = Inl IndexError"
  by code_simp

text \<open>
  Claim C8 says that \<^verbatim>\<open>UtteranceConfusionNetwork.index\<close> raises \<open>ValueError\<close> exactly when
  \<^verbatim>\<open>UtteranceConfusionNetwork.find\<close> returns \<open>-1\<close>.  Both methods take the arguments
  \<^verbatim>\<open>start\<close> and \<^verbatim>\<open>end\<close>, but \<^verbatim>\<open>index\<close> calls \<^verbatim>\<open>self.find(phrase)\<close> and drops them.  The code
  at the confusion network of the two slots \<open>[(0.6, i), (0.4, a)]\<close> and \<open>[(1, want)]\<close>,
  with the phrase \<^verbatim>\<open>['a', 'want']\<close>, \<^verbatim>\<open>start = 1\<close> and \<^verbatim>\<open>end = 1\<close>: \<^verbatim>\<open>find\<close> returns \<open>-1\<close>, since the
  range is empty, and \<^verbatim>\<open>index\<close> does not raise: it returns 0, the position of the phrase
  in the whole network.
\<close>

theorem UCN_index_ignores_start_end:
  "UCN_find 4 \<lparr>abstr_idxs = [], cn = [[(0.6, ''i''), (0.4, ''a'')], [(1, ''want'')]],
                  cn_wordset = {''i'', ''a'', ''want''}, long_links = [[], []]\<rparr>
      [''a'', ''want''] 1 (Some 1) = Inr (- 1)
   \<and> UCN_index 4 \<lparr>abstr_idxs = [], cn = [[(0.6, ''i''), (0.4, ''a'')], [(1, ''want'')]],
                    cn_wordset = {''i'', ''a'', ''want''}, long_links = [[], []]\<rparr>
      [''a'', ''want''] 1 (Some 1) = Inr 0"
  by code_simp

subsection \<open>Feature types\<close>

text \<open>
  Claim C9 says that \<^verbatim>\<open>parse\<close> raises \<open>NotImplementedError\<close> for every input when the
  feature type is not \<^verbatim>\<open>'ngram'\<close>.  For the empty utterance and the feature type
  \<^verbatim>\<open>'bigram'\<close> the code tests \<^verbatim>\<open>utterance.isempty()\<close> first and counts the feature
  \<^verbatim>\<open>'__empty__'\<close> instead of raising.
\<close>

theorem UtteranceFeatures_parse_empty_counterexample:
  "UtteranceFeatures_parse (UtteranceFeatures_init ''bigram'' 3) (Utterance_init '''') True
   = Inr ((UtteranceFeatures_init ''bigram'' 3)
            \<lparr>features := feat_add (features (UtteranceFeatures_init ''bigram'' 3))
                            (FStr ''__empty__'') 1\<rparr>)"
  by (simp add: UtteranceFeatures_parse_def Utterance_isempty_def Utterance_init_def str_split_def)

text \<open>
  Claim C9, amended.  For every utterance and every confusion network that is not empty,
  \<^verbatim>\<open>parse\<close> raises \<open>NotImplementedError\<close> when the feature type is not \<^verbatim>\<open>'ngram'\<close>; for an
  empty input it counts the feature \<^verbatim>\<open>'__empty__'\<close> whatever the feature type is.
\<close>

theorem parse_unsupported_feature_type:
  assumes "feat_type self \<noteq> ''ngram''"
  shows "(\<not> Utterance_isempty u \<longrightarrow>
            UtteranceFeatures_parse self u with_boundaries = Inl NotImplementedError)
       \<and> (\<not> UCN_isempty confnet \<longrightarrow>
            UtteranceConfusionNetworkFeatures_parse depth self confnet = Inl NotImplementedError)
       \<and> (Utterance_isempty u \<longrightarrow>
            UtteranceFeatures_parse self u with_boundaries
              = Inr (self\<lparr>features := feat_add (features self) (FStr ''__empty__'') 1\<rparr>))
       \<and> (UCN_isempty confnet \<longrightarrow>
            UtteranceConfusionNetworkFeatures_parse depth self confnet
              = Inr (self\<lparr>features := feat_add (features self) (FStr ''__empty__'') 1\<rparr>))"
proof -
  have "feat_add (features self) (FStr ''__empty__'') 1 \<noteq> Map.empty"
    by (simp add: feat_add_def)
  with assms show ?thesis
    by (simp add: UtteranceFeatures_parse_def UtteranceConfusionNetworkFeatures_parse_def)
qed

theorem parse_unsupported_feature_type_witness:
  "UtteranceFeatures_parse (UtteranceFeatures_init ''bigram'' 3)
     (Utterance_init ''book a table'') True = Inl NotImplementedError
   \<and> UtteranceConfusionNetworkFeatures_parse 1000 (UtteranceFeatures_init ''bigram'' 3)
       \<lparr>abstr_idxs = [], cn = [[(0.6, ''i''), (0.4, ''a'')], [(1, ''want'')]],
         cn_wordset = {''i'', ''a'', ''want''}, long_links = [[], []]\<rparr>
     = Inl NotImplementedError"
proof -
  let ?self = "UtteranceFeatures_init ''bigram'' 3"
  let ?u = "Utterance_init ''book a table''"
  let ?c = "\<lparr>abstr_idxs = [], cn = [[(0.6, ''i''), (0.4, ''a'')], [(1, ''want'')]],
         cn_wordset = {''i'', ''a'', ''want''}, long_links = [[], []]\<rparr>"
  have t: "feat_type ?self \<noteq> ''ngram''"
    by (simp add: UtteranceFeatures_init_def)
  have u: "\<not> Utterance_isempty ?u"
    by (simp add: Utterance_isempty_def Utterance_init_def str_split_def is_space_def)
  have c: "\<not> UCN_isempty ?c"
    by (simp add: UCN_isempty_def)
  from parse_unsupported_feature_type [OF t, of ?u True ?c 1000] u c show ?thesis
    by blast
qed

subsection \<open>Normalisation\<close>

lemma collect_append:
  "collect f (xs @ ys) =
     (case collect f xs of
        Inl e \<Rightarrow> Inl e
      | Inr a \<Rightarrow> (case collect f ys of Inl e \<Rightarrow> Inl e | Inr b \<Rightarrow> Inr (a @ b)))"
  by (induction xs) (auto split: sum.splits)


















subsubsection \<open>Scaling the probabilities of long links\<close>











subsection \<open>Replacement of phrases\<close>




















end
